theory Spec2Isabelle
  imports Complex_Main "HOL-Library.Monad_Syntax"
begin

section \<open>The linked hash map of \<^verbatim>\<open>src/linked_hashmap.hpp\<close>\<close>

text \<open>
  The container is a pointer structure: every entry is a heap node that sits in two
  doubly linked lists at once (the insertion-order list and one bucket chain), and
  iterators hold raw pointers to a node and to the container that produced them.
  The model therefore has an explicit store:
  \<^item> \<open>nodes\<close> maps an address to the node allocated there (\<open>None\<close>: nothing is
    allocated, a pointer with this value is dangling);
  \<^item> \<open>maps\<close> maps an address to the container object living there, so that
    \<^verbatim>\<open>this\<close> and the \<^verbatim>\<open>map\<close> field of an iterator are addresses;
  \<^item> \<open>next_node\<close> is the allocator: \<^verbatim>\<open>new Node\<close> returns this address and
    increments it, so a freed address is never handed out again.

  Every function that reads or writes memory returns an \<open>option\<close>. \<open>None\<close> stands
  for an execution with no defined result: a loop that does not terminate, or
  undefined behaviour of C++ (reading or writing through a null or dangling pointer,
  an out-of-range array index, \<^verbatim>\<open>%\<close> by zero). A C++ exception is not \<open>None\<close>: it is a
  value \<open>Inl e\<close> of the sum type inside. The exceptions are the two that the container
  throws itself: allocation is taken to succeed, and the hash function, the equality
  and the copy of a key-value pair to be pure.

  The template parameters \<^verbatim>\<open>Hash\<close> and \<^verbatim>\<open>Equal\<close> appear as the member objects
  \<^verbatim>\<open>hash_func\<close> and \<^verbatim>\<open>equal_func\<close>: any function from keys to \<^verbatim>\<open>size_t\<close>, and any
  relation on keys. The theorems are about containers that compare keys with the
  default \<^verbatim>\<open>std::equal_to\<close>.

  \<^verbatim>\<open>size_t\<close> is modelled by \<open>nat\<close>. Sizes and counts stay far below \<open>2 ^ 64\<close>
  (every counted node and every bucket occupies memory), so increments and the
  doubling never wrap; the one operation that could leave \<open>nat\<close>, the decrement of
  \<^verbatim>\<open>element_count\<close>, has its wrap-around written out. The test
  \<^verbatim>\<open>element_count >= table_size * 0.75\<close> is computed in \<^verbatim>\<open>double\<close>; both
  sides are exact below \<open>2 ^ 53\<close>, where it is \<open>3 * table_size \<le> 4 * element_count\<close>.
\<close>

type_synonym addr = nat

datatype exception = invalid_iterator | index_out_of_bound

record ('k, 'v) Node =
  data :: "'k \<times> 'v"
  prev :: "addr option"
  "next" :: "addr option"
  hash_prev :: "addr option"
  hash_next :: "addr option"

definition Node_ctor :: "'k \<times> 'v \<Rightarrow> ('k, 'v) Node" where
  "Node_ctor d = \<lparr>data = d, prev = None, next = None, hash_prev = None, hash_next = None\<rparr>"

record 'k linked_hashmap =
  head :: "addr option"
  tail :: "addr option"
  hash_table :: "addr option list option"
  table_size :: nat
  element_count :: nat
  hash_func :: "'k \<Rightarrow> nat"
  equal_func :: "'k \<Rightarrow> 'k \<Rightarrow> bool"

record ('k, 'v) store =
  nodes :: "addr \<Rightarrow> ('k, 'v) Node option"
  maps :: "addr \<Rightarrow> 'k linked_hashmap option"
  next_node :: addr

text \<open>An iterator is the pair of public fields \<^verbatim>\<open>node\<close> and \<^verbatim>\<open>map\<close>. The class
  \<^verbatim>\<open>const_iterator\<close> has the same two fields and the same member functions.\<close>

record iterator =
  node :: "addr option"
  map_ptr :: "addr option"

type_synonym const_iterator = iterator

definition INITIAL_SIZE :: nat where
  "INITIAL_SIZE = 16"

subsection \<open>Memory primitives\<close>

definition upd_node ::
  "('k, 'v) store \<Rightarrow> addr \<Rightarrow> (('k, 'v) Node \<Rightarrow> ('k, 'v) Node) \<Rightarrow> ('k, 'v) store option" where
  "upd_node s a f =
     (case nodes s a of None \<Rightarrow> None
      | Some n \<Rightarrow> Some (s\<lparr>nodes := (nodes s)(a \<mapsto> f n)\<rparr>))"

definition new_Node :: "('k, 'v) store \<Rightarrow> 'k \<times> 'v \<Rightarrow> ('k, 'v) store \<times> addr" where
  "new_Node s d =
     (s\<lparr>nodes := (nodes s)(next_node s \<mapsto> Node_ctor d), next_node := Suc (next_node s)\<rparr>,
      next_node s)"

definition delete_Node :: "('k, 'v) store \<Rightarrow> addr \<Rightarrow> ('k, 'v) store option" where
  "delete_Node s a =
     (case nodes s a of None \<Rightarrow> None
      | Some n \<Rightarrow> Some (s\<lparr>nodes := (nodes s)(a := None)\<rparr>))"

definition upd_map ::
  "('k, 'v) store \<Rightarrow> addr \<Rightarrow> ('k linked_hashmap \<Rightarrow> 'k linked_hashmap) \<Rightarrow> ('k, 'v) store option" where
  "upd_map s this f =
     (case maps s this of None \<Rightarrow> None
      | Some m \<Rightarrow> Some (s\<lparr>maps := (maps s)(this \<mapsto> f m)\<rparr>))"

text \<open>\<^verbatim>\<open>element_count--\<close> on a 64-bit \<^verbatim>\<open>size_t\<close>.\<close>

definition size_t_dec :: "nat \<Rightarrow> nat" where
  "size_t_dec c = (if c = 0 then 2 ^ 64 - 1 else c - 1)"

subsection \<open>Private member functions\<close>

definition initialize_table :: "('k, 'v) store \<Rightarrow> addr \<Rightarrow> nat \<Rightarrow> ('k, 'v) store option" where
  "initialize_table s this sz =
     upd_map s this (\<lambda>m. m\<lparr>table_size := sz, hash_table := Some (replicate sz None)\<rparr>)"

partial_function (option) clear_table_chain ::
  "('k, 'v) store \<Rightarrow> addr option \<Rightarrow> ('k, 'v) store option" where
  "clear_table_chain s current =
     (case current of None \<Rightarrow> Some s
      | Some c \<Rightarrow> do {
          n \<leftarrow> nodes s c;
          s' \<leftarrow> delete_Node s c;
          clear_table_chain s' (hash_next n) })"

declare clear_table_chain.simps [code]

fun clear_table_buckets :: "('k, 'v) store \<Rightarrow> addr option list \<Rightarrow> ('k, 'v) store option" where
  "clear_table_buckets s [] = Some s"
| "clear_table_buckets s (b # bs) = do {
     s' \<leftarrow> clear_table_chain s b;
     clear_table_buckets s' bs }"

definition clear_table :: "('k, 'v) store \<Rightarrow> addr \<Rightarrow> ('k, 'v) store option" where
  "clear_table s this = do {
     m \<leftarrow> maps s this;
     case hash_table m of
       None \<Rightarrow> Some s
     | Some tbl \<Rightarrow> do {
         s' \<leftarrow> (if table_size m \<le> length tbl
                then clear_table_buckets s (take (table_size m) tbl) else None);
         upd_map s' this (\<lambda>m. m\<lparr>hash_table := None\<rparr>) } }"

partial_function (option) rehash_loop ::
  "('k \<Rightarrow> nat) \<Rightarrow> nat \<Rightarrow> ('k, 'v) store \<Rightarrow> addr option list \<Rightarrow> addr option
     \<Rightarrow> (('k, 'v) store \<times> addr option list) option" where
  "rehash_loop hf new_size s new_table current =
     (case current of None \<Rightarrow> Some (s, new_table)
      | Some c \<Rightarrow> do {
          n \<leftarrow> nodes s c;
          if new_size = 0 \<or> \<not> hf (fst (data n)) mod new_size < length new_table then None
          else do {
            let index = hf (fst (data n)) mod new_size;
            s1 \<leftarrow> upd_node s c (\<lambda>x. x\<lparr>hash_prev := None\<rparr>);
            s2 \<leftarrow> upd_node s1 c (\<lambda>x. x\<lparr>hash_next := new_table ! index\<rparr>);
            s3 \<leftarrow> (case new_table ! index of None \<Rightarrow> Some s2
                   | Some b \<Rightarrow> upd_node s2 b (\<lambda>x. x\<lparr>hash_prev := Some c\<rparr>));
            n' \<leftarrow> nodes s3 c;
            rehash_loop hf new_size s3 (new_table[index := Some c]) (next n') } })"

declare rehash_loop.simps [code]

definition rehash :: "('k, 'v) store \<Rightarrow> addr \<Rightarrow> ('k, 'v) store option" where
  "rehash s this = do {
     m \<leftarrow> maps s this;
     let new_size = table_size m * 2;
     r \<leftarrow> rehash_loop (hash_func m) new_size s (replicate new_size None) (head m);
     upd_map (fst r) this (\<lambda>m. m\<lparr>hash_table := Some (snd r), table_size := new_size\<rparr>) }"

partial_function (option) find_node_loop ::
  "('k, 'v) store \<Rightarrow> ('k \<Rightarrow> 'k \<Rightarrow> bool) \<Rightarrow> 'k \<Rightarrow> addr option \<Rightarrow> addr option option" where
  "find_node_loop s eq key current =
     (case current of None \<Rightarrow> Some None
      | Some c \<Rightarrow>
          (case nodes s c of None \<Rightarrow> None
           | Some n \<Rightarrow>
               if eq (fst (data n)) key then Some (Some c)
               else find_node_loop s eq key (hash_next n)))"

declare find_node_loop.simps [code]

definition find_node :: "('k, 'v) store \<Rightarrow> addr \<Rightarrow> 'k \<Rightarrow> addr option option" where
  "find_node s this key = do {
     m \<leftarrow> maps s this;
     tbl \<leftarrow> hash_table m;
     if table_size m = 0 \<or> \<not> hash_func m key mod table_size m < length tbl then None
     else find_node_loop s (equal_func m) key (tbl ! (hash_func m key mod table_size m)) }"

definition remove_from_list :: "('k, 'v) store \<Rightarrow> addr \<Rightarrow> addr \<Rightarrow> ('k, 'v) store option" where
  "remove_from_list s this nd = do {
     n \<leftarrow> nodes s nd;
     s1 \<leftarrow> (case prev n of
              Some p \<Rightarrow> upd_node s p (\<lambda>x. x\<lparr>next := next n\<rparr>)
            | None \<Rightarrow> upd_map s this (\<lambda>m. m\<lparr>head := next n\<rparr>));
     n1 \<leftarrow> nodes s1 nd;
     case next n1 of
       Some q \<Rightarrow> upd_node s1 q (\<lambda>x. x\<lparr>prev := prev n1\<rparr>)
     | None \<Rightarrow> upd_map s1 this (\<lambda>m. m\<lparr>tail := prev n1\<rparr>) }"

definition remove_from_hash :: "('k, 'v) store \<Rightarrow> addr \<Rightarrow> addr \<Rightarrow> ('k, 'v) store option" where
  "remove_from_hash s this nd = do {
     m \<leftarrow> maps s this;
     n \<leftarrow> nodes s nd;
     if table_size m = 0 then None
     else do {
       let index = hash_func m (fst (data n)) mod table_size m;
       s1 \<leftarrow> (case hash_prev n of
                Some p \<Rightarrow> upd_node s p (\<lambda>x. x\<lparr>hash_next := hash_next n\<rparr>)
              | None \<Rightarrow> do {
                  tbl \<leftarrow> hash_table m;
                  if index < length tbl
                  then upd_map s this (\<lambda>m. m\<lparr>hash_table := Some (tbl[index := hash_next n])\<rparr>)
                  else None });
       n1 \<leftarrow> nodes s1 nd;
       case hash_next n1 of
         Some q \<Rightarrow> upd_node s1 q (\<lambda>x. x\<lparr>hash_prev := hash_prev n1\<rparr>)
       | None \<Rightarrow> Some s1 } }"

subsection \<open>Iterators\<close>

text \<open>The stepping operators change the iterator object; the model returns the new
  value of \<^verbatim>\<open>*this\<close>, and for the postfix forms the pair of it and the returned
  copy \<^verbatim>\<open>temp\<close>. An exception is thrown before the iterator is changed.\<close>

definition iterator_post_inc ::
  "('k, 'v) store \<Rightarrow> iterator \<Rightarrow> (exception + iterator \<times> iterator) option" where
  "iterator_post_inc s it =
     (case node it of
        None \<Rightarrow> Some (Inl invalid_iterator)
      | Some a \<Rightarrow>
          if map_ptr it = None then Some (Inl invalid_iterator)
          else do { n \<leftarrow> nodes s a; Some (Inr (it\<lparr>node := next n\<rparr>, it)) })"

definition iterator_pre_inc ::
  "('k, 'v) store \<Rightarrow> iterator \<Rightarrow> (exception + iterator) option" where
  "iterator_pre_inc s it =
     (case node it of
        None \<Rightarrow> Some (Inl invalid_iterator)
      | Some a \<Rightarrow>
          if map_ptr it = None then Some (Inl invalid_iterator)
          else do { n \<leftarrow> nodes s a; Some (Inr (it\<lparr>node := next n\<rparr>)) })"

definition iterator_post_dec ::
  "('k, 'v) store \<Rightarrow> iterator \<Rightarrow> (exception + iterator \<times> iterator) option" where
  "iterator_post_dec s it =
     (case map_ptr it of
        None \<Rightarrow> Some (Inl invalid_iterator)
      | Some mp \<Rightarrow>
          (case node it of
             Some a \<Rightarrow> do { n \<leftarrow> nodes s a; Some (Inr (it\<lparr>node := prev n\<rparr>, it)) }
           | None \<Rightarrow> do { m \<leftarrow> maps s mp; Some (Inr (it\<lparr>node := tail m\<rparr>, it)) }))"

definition iterator_pre_dec ::
  "('k, 'v) store \<Rightarrow> iterator \<Rightarrow> (exception + iterator) option" where
  "iterator_pre_dec s it =
     (case map_ptr it of
        None \<Rightarrow> Some (Inl invalid_iterator)
      | Some mp \<Rightarrow>
          (case node it of
             Some a \<Rightarrow> do { n \<leftarrow> nodes s a; Some (Inr (it\<lparr>node := prev n\<rparr>)) }
           | None \<Rightarrow> do { m \<leftarrow> maps s mp; Some (Inr (it\<lparr>node := tail m\<rparr>)) }))"

definition const_iterator_pre_dec ::
  "('k, 'v) store \<Rightarrow> const_iterator \<Rightarrow> (exception + const_iterator) option" where
  "const_iterator_pre_dec s it =
     (case map_ptr it of
        None \<Rightarrow> Some (Inl invalid_iterator)
      | Some mp \<Rightarrow>
          (case node it of
             Some a \<Rightarrow> do { n \<leftarrow> nodes s a; Some (Inr (it\<lparr>node := prev n\<rparr>)) }
           | None \<Rightarrow> do { m \<leftarrow> maps s mp; Some (Inr (it\<lparr>node := tail m\<rparr>)) }))"

text \<open>\<^verbatim>\<open>operator*\<close> returns a reference to \<^verbatim>\<open>node->data\<close>; the model returns the
  pair found there. \<^verbatim>\<open>operator->\<close> is \<^verbatim>\<open>noexcept\<close> and returns a pointer, which is
  null for a null \<^verbatim>\<open>node\<close>: the pointer to the data of a node is the node's address.
  Its result has the type of the other operators' results, and is never an exception.\<close>

definition iterator_deref ::
  "('k, 'v) store \<Rightarrow> iterator \<Rightarrow> (exception + 'k \<times> 'v) option" where
  "iterator_deref s it =
     (case node it of
        None \<Rightarrow> Some (Inl invalid_iterator)
      | Some a \<Rightarrow> do { n \<leftarrow> nodes s a; Some (Inr (data n)) })"

definition iterator_arrow :: "iterator \<Rightarrow> exception + addr option" where
  "iterator_arrow it = (case node it of None \<Rightarrow> Inr None | Some a \<Rightarrow> Inr (Some a))"

definition iterator_eq :: "iterator \<Rightarrow> iterator \<Rightarrow> bool" where
  "iterator_eq a b \<longleftrightarrow> node a = node b \<and> map_ptr a = map_ptr b"

definition iterator_neq :: "iterator \<Rightarrow> iterator \<Rightarrow> bool" where
  "iterator_neq a b \<longleftrightarrow> \<not> iterator_eq a b"

subsection \<open>Public member functions\<close>

definition linked_hashmap_ctor ::
  "('k \<Rightarrow> nat) \<Rightarrow> ('k \<Rightarrow> 'k \<Rightarrow> bool) \<Rightarrow> ('k, 'v) store \<Rightarrow> addr \<Rightarrow> ('k, 'v) store option" where
  "linked_hashmap_ctor Hash Equal s this =
     initialize_table
       (s\<lparr>maps := (maps s)(this \<mapsto>
            \<lparr>head = None, tail = None, hash_table = None, table_size = 0, element_count = 0,
             hash_func = Hash, equal_func = Equal\<rparr>)\<rparr>)
       this INITIAL_SIZE"

definition begin_lhm :: "('k, 'v) store \<Rightarrow> addr \<Rightarrow> iterator option" where
  "begin_lhm s this = do { m \<leftarrow> maps s this; Some \<lparr>node = head m, map_ptr = Some this\<rparr> }"

definition end_lhm :: "addr \<Rightarrow> iterator" where
  "end_lhm this = \<lparr>node = None, map_ptr = Some this\<rparr>"

definition cbegin :: "('k, 'v) store \<Rightarrow> addr \<Rightarrow> const_iterator option" where
  "cbegin s this = do { m \<leftarrow> maps s this; Some \<lparr>node = head m, map_ptr = Some this\<rparr> }"

definition cend :: "addr \<Rightarrow> const_iterator" where
  "cend this = \<lparr>node = None, map_ptr = Some this\<rparr>"

definition empty_lhm :: "('k, 'v) store \<Rightarrow> addr \<Rightarrow> bool option" where
  "empty_lhm s this = do { m \<leftarrow> maps s this; Some (element_count m = 0) }"

definition size_lhm :: "('k, 'v) store \<Rightarrow> addr \<Rightarrow> nat option" where
  "size_lhm s this = do { m \<leftarrow> maps s this; Some (element_count m) }"

partial_function (option) clear_loop ::
  "('k, 'v) store \<Rightarrow> addr option \<Rightarrow> ('k, 'v) store option" where
  "clear_loop s current =
     (case current of None \<Rightarrow> Some s
      | Some c \<Rightarrow> do {
          n \<leftarrow> nodes s c;
          s' \<leftarrow> delete_Node s c;
          clear_loop s' (next n) })"

declare clear_loop.simps [code]

definition clear :: "('k, 'v) store \<Rightarrow> addr \<Rightarrow> ('k, 'v) store option" where
  "clear s this = do {
     m \<leftarrow> maps s this;
     s1 \<leftarrow> clear_loop s (head m);
     s2 \<leftarrow> upd_map s1 this (\<lambda>m. m\<lparr>head := None, tail := None, element_count := 0\<rparr>);
     m2 \<leftarrow> maps s2 this;
     if table_size m2 = 0 then Some s2
     else do {
       tbl \<leftarrow> hash_table m2;
       if table_size m2 \<le> length tbl
       then upd_map s2 this
              (\<lambda>m. m\<lparr>hash_table := Some (replicate (table_size m2) None @ drop (table_size m2) tbl)\<rparr>)
       else None } }"

definition insert_lhm ::
  "('k, 'v) store \<Rightarrow> addr \<Rightarrow> 'k \<times> 'v \<Rightarrow> (('k, 'v) store \<times> iterator \<times> bool) option" where
  "insert_lhm s this val = do {
     existing \<leftarrow> find_node s this (fst val);
     case existing of
       Some e \<Rightarrow> Some (s, \<lparr>node = Some e, map_ptr = Some this\<rparr>, False)
     | None \<Rightarrow> do {
         m \<leftarrow> maps s this;
         s1 \<leftarrow> (if 3 * table_size m \<le> 4 * element_count m then rehash s this else Some s);
         let s2 = fst (new_Node s1 val);
         let new_node = snd (new_Node s1 val);
         m2 \<leftarrow> maps s2 this;
         s3 \<leftarrow> (case head m2 of
                  None \<Rightarrow> upd_map s2 this (\<lambda>m. m\<lparr>head := Some new_node, tail := Some new_node\<rparr>)
                | Some h \<Rightarrow> do {
                    t \<leftarrow> tail m2;
                    s' \<leftarrow> upd_node s2 t (\<lambda>x. x\<lparr>next := Some new_node\<rparr>);
                    s'' \<leftarrow> upd_node s' new_node (\<lambda>x. x\<lparr>prev := Some t\<rparr>);
                    upd_map s'' this (\<lambda>m. m\<lparr>tail := Some new_node\<rparr>) });
         m3 \<leftarrow> maps s3 this;
         tbl \<leftarrow> hash_table m3;
         if table_size m3 = 0 \<or> \<not> hash_func m3 (fst val) mod table_size m3 < length tbl then None
         else do {
           let index = hash_func m3 (fst val) mod table_size m3;
           s4 \<leftarrow> upd_node s3 new_node (\<lambda>x. x\<lparr>hash_next := tbl ! index\<rparr>);
           s5 \<leftarrow> (case tbl ! index of None \<Rightarrow> Some s4
                  | Some b \<Rightarrow> upd_node s4 b (\<lambda>x. x\<lparr>hash_prev := Some new_node\<rparr>));
           s6 \<leftarrow> upd_map s5 this (\<lambda>m. m\<lparr>hash_table := Some (tbl[index := Some new_node])\<rparr>);
           s7 \<leftarrow> upd_map s6 this (\<lambda>m. m\<lparr>element_count := element_count m + 1\<rparr>);
           Some (s7, \<lparr>node = Some new_node, map_ptr = Some this\<rparr>, True) } } }"

text \<open>\<^verbatim>\<open>erase\<close> returns the store it leaves behind also when it throws.\<close>

definition erase ::
  "('k, 'v) store \<Rightarrow> addr \<Rightarrow> iterator \<Rightarrow> ((exception + unit) \<times> ('k, 'v) store) option" where
  "erase s this pos =
     (case node pos of
        None \<Rightarrow> Some (Inl invalid_iterator, s)
      | Some nd \<Rightarrow>
          if map_ptr pos \<noteq> Some this then Some (Inl invalid_iterator, s)
          else do {
            s1 \<leftarrow> remove_from_hash s this nd;
            s2 \<leftarrow> remove_from_list s1 this nd;
            s3 \<leftarrow> delete_Node s2 nd;
            s4 \<leftarrow> upd_map s3 this (\<lambda>m. m\<lparr>element_count := size_t_dec (element_count m)\<rparr>);
            Some (Inr (), s4) })"

definition count :: "('k, 'v) store \<Rightarrow> addr \<Rightarrow> 'k \<Rightarrow> nat option" where
  "count s this key = do {
     nd \<leftarrow> find_node s this key;
     Some (if nd \<noteq> None then 1 else 0) }"

definition find_lhm :: "('k, 'v) store \<Rightarrow> addr \<Rightarrow> 'k \<Rightarrow> iterator option" where
  "find_lhm s this key = do {
     nd \<leftarrow> find_node s this key;
     Some (case nd of Some a \<Rightarrow> \<lparr>node = Some a, map_ptr = Some this\<rparr> | None \<Rightarrow> end_lhm this) }"

text \<open>\<^verbatim>\<open>at\<close> and \<^verbatim>\<open>operator[]\<close> return a reference to \<^verbatim>\<open>node->data.second\<close>: the
  model returns the address of the node, and \<open>value_at\<close> reads through it. \<^verbatim>\<open>at\<close>
  writes nothing, so it returns no store.\<close>

definition value_at :: "('k, 'v) store \<Rightarrow> addr \<Rightarrow> 'v option" where
  "value_at s a = do { n \<leftarrow> nodes s a; Some (snd (data n)) }"

definition at_lhm :: "('k, 'v) store \<Rightarrow> addr \<Rightarrow> 'k \<Rightarrow> (exception + addr) option" where
  "at_lhm s this key = do {
     nd \<leftarrow> find_node s this key;
     case nd of None \<Rightarrow> Some (Inl index_out_of_bound) | Some a \<Rightarrow> Some (Inr a) }"

text \<open>The non-const \<^verbatim>\<open>operator[]\<close>; \<open>dflt\<close> is the value \<^verbatim>\<open>T()\<close>.\<close>

definition operator_index ::
  "'v \<Rightarrow> ('k, 'v) store \<Rightarrow> addr \<Rightarrow> 'k \<Rightarrow> (('k, 'v) store \<times> addr) option" where
  "operator_index dflt s this key = do {
     nd \<leftarrow> find_node s this key;
     case nd of
       Some a \<Rightarrow> Some (s, a)
     | None \<Rightarrow> do {
         r \<leftarrow> insert_lhm s this (key, dflt);
         nd' \<leftarrow> find_node (fst r) this key;
         a \<leftarrow> nd';
         Some (fst r, a) } }"

definition operator_index_const ::
  "('k, 'v) store \<Rightarrow> addr \<Rightarrow> 'k \<Rightarrow> (exception + addr) option" where
  "operator_index_const s this key = at_lhm s this key"

partial_function (option) copy_loop ::
  "('k, 'v) store \<Rightarrow> addr \<Rightarrow> addr option \<Rightarrow> ('k, 'v) store option" where
  "copy_loop s this current =
     (case current of None \<Rightarrow> Some s
      | Some c \<Rightarrow> do {
          n \<leftarrow> nodes s c;
          r \<leftarrow> insert_lhm s this (data n);
          n' \<leftarrow> nodes (fst r) c;
          copy_loop (fst r) this (next n') })"

declare copy_loop.simps [code]

text \<open>The copy constructor builds the object at \<open>this\<close>; \<open>Hash\<close> and \<open>Equal\<close> are the
  default-constructed function objects that the assignments then overwrite.\<close>

definition linked_hashmap_copy_ctor ::
  "('k \<Rightarrow> nat) \<Rightarrow> ('k \<Rightarrow> 'k \<Rightarrow> bool) \<Rightarrow> ('k, 'v) store \<Rightarrow> addr \<Rightarrow> addr \<Rightarrow> ('k, 'v) store option" where
  "linked_hashmap_copy_ctor Hash Equal s this other = do {
     let s0 = s\<lparr>maps := (maps s)(this \<mapsto>
            \<lparr>head = None, tail = None, hash_table = None, table_size = 0, element_count = 0,
             hash_func = Hash, equal_func = Equal\<rparr>)\<rparr>;
     o1 \<leftarrow> maps s0 other;
     s1 \<leftarrow> initialize_table s0 this (table_size o1);
     o2 \<leftarrow> maps s1 other;
     s2 \<leftarrow> upd_map s1 this (\<lambda>m. m\<lparr>hash_func := hash_func o2\<rparr>);
     o3 \<leftarrow> maps s2 other;
     s3 \<leftarrow> upd_map s2 this (\<lambda>m. m\<lparr>equal_func := equal_func o3\<rparr>);
     o4 \<leftarrow> maps s3 other;
     copy_loop s3 this (head o4) }"

definition operator_assign ::
  "('k, 'v) store \<Rightarrow> addr \<Rightarrow> addr \<Rightarrow> ('k, 'v) store option" where
  "operator_assign s this other =
     (if this = other then Some s
      else do {
        sa \<leftarrow> clear s this;
        s0 \<leftarrow> clear_table sa this;
        o1 \<leftarrow> maps s0 other;
        s1 \<leftarrow> initialize_table s0 this (table_size o1);
        o2 \<leftarrow> maps s1 other;
        s2 \<leftarrow> upd_map s1 this (\<lambda>m. m\<lparr>hash_func := hash_func o2\<rparr>);
        o3 \<leftarrow> maps s2 other;
        s3 \<leftarrow> upd_map s2 this (\<lambda>m. m\<lparr>equal_func := equal_func o3\<rparr>);
        o4 \<leftarrow> maps s3 other;
        copy_loop s3 this (head o4) })"

subsection \<open>Iterating a container\<close>

text \<open>The client loop
  \<^verbatim>\<open>for (it = m.begin(); it != m.end(); ++it) out.push_back(*it);\<close>
  collects what an iteration from head to tail observes.\<close>

partial_function (option) iterate_loop ::
  "('k, 'v) store \<Rightarrow> iterator \<Rightarrow> iterator \<Rightarrow> ('k \<times> 'v) list \<Rightarrow> (exception + ('k \<times> 'v) list) option" where
  "iterate_loop s it e out =
     (if iterator_neq it e then do {
        d \<leftarrow> iterator_deref s it;
        case d of
          Inl x \<Rightarrow> Some (Inl x)
        | Inr v \<Rightarrow> do {
            r \<leftarrow> iterator_pre_inc s it;
            case r of
              Inl x \<Rightarrow> Some (Inl x)
            | Inr it' \<Rightarrow> iterate_loop s it' e (out @ [v]) } }
      else Some (Inr out))"

declare iterate_loop.simps [code]

definition iterate :: "('k, 'v) store \<Rightarrow> addr \<Rightarrow> (exception + ('k \<times> 'v) list) option" where
  "iterate s this = do {
     b \<leftarrow> begin_lhm s this;
     iterate_loop s b (end_lhm this) [] }"

section \<open>Linked lists in the store\<close>

text \<open>\<open>seg nx c as e\<close>: following the pointer field \<open>nx\<close> from \<open>c\<close> visits exactly the
  allocated addresses \<open>as\<close>, in this order, and arrives at \<open>e\<close>. The field is given as
  a function that is \<open>None\<close> where nothing is allocated.\<close>

fun seg :: "(addr \<Rightarrow> addr option option) \<Rightarrow> addr option \<Rightarrow> addr list \<Rightarrow> addr option \<Rightarrow> bool" where
  "seg nx c [] e = (c = e)"
| "seg nx c (a # as) e = (c = Some a \<and> (case nx a of None \<Rightarrow> False | Some c' \<Rightarrow> seg nx c' as e))"

definition hd_opt :: "'a list \<Rightarrow> 'a option" where
  "hd_opt xs = (case xs of [] \<Rightarrow> None | x # _ \<Rightarrow> Some x)"

definition last_opt :: "'a list \<Rightarrow> 'a option" where
  "last_opt xs = (if xs = [] then None else Some (last xs))"

section \<open>The representation invariant\<close>

text \<open>Projections of the node store: a field of the node at an address, \<open>None\<close> where
  nothing is allocated.\<close>

definition fld :: "(('k, 'v) Node \<Rightarrow> 'a) \<Rightarrow> ('k, 'v) store \<Rightarrow> addr \<Rightarrow> 'a option" where
  "fld f s a = map_option f (nodes s a)"

definition key_at :: "('k, 'v) store \<Rightarrow> addr \<Rightarrow> 'k option" where
  "key_at s a = map_option fst (fld data s a)"

text \<open>The bucket of the node at an address, for hash function \<open>hf\<close> and table size \<open>n\<close>;
  \<open>dat\<close> gives the key-value pair stored at an address.\<close>

definition bucket_of ::
  "('k \<Rightarrow> nat) \<Rightarrow> nat \<Rightarrow> (addr \<Rightarrow> ('k \<times> 'v) option) \<Rightarrow> addr \<Rightarrow> nat option" where
  "bucket_of hf n dat a = map_option (\<lambda>d. hf (fst d) mod n) (dat a)"

text \<open>The nodes of bucket \<open>i\<close>, oldest first. A bucket chain lists them newest first,
  since \<^verbatim>\<open>insert\<close> and \<^verbatim>\<open>rehash\<close> both push at the front of a chain.\<close>

definition chain ::
  "('k \<Rightarrow> nat) \<Rightarrow> nat \<Rightarrow> (addr \<Rightarrow> ('k \<times> 'v) option) \<Rightarrow> addr list \<Rightarrow> nat \<Rightarrow> addr list" where
  "chain hf n dat as i = filter (\<lambda>a. bucket_of hf n dat a = Some i) as"

text \<open>Every bucket \<open>i\<close> of the table is the doubly linked list (fields \<open>hn\<close> forward and
  \<open>hp\<close> backward) of the nodes among \<open>as\<close> whose key hashes to \<open>i\<close>.\<close>

definition buckets_ok ::
  "('k \<Rightarrow> nat) \<Rightarrow> nat \<Rightarrow> (addr \<Rightarrow> ('k \<times> 'v) option) \<Rightarrow> (addr \<Rightarrow> addr option option)
     \<Rightarrow> (addr \<Rightarrow> addr option option) \<Rightarrow> addr option list \<Rightarrow> addr list \<Rightarrow> bool" where
  "buckets_ok hf n dat hn hp tbl as \<longleftrightarrow>
     (\<forall>i<n. seg hn (tbl ! i) (rev (chain hf n dat as i)) None \<and>
            seg hp (hd_opt (chain hf n dat as i)) (chain hf n dat as i) None)"

text \<open>\<open>wf_lhm s this as\<close>: the object at \<open>this\<close> is a well-formed container whose
  entries are the nodes at the addresses \<open>as\<close>, in insertion order. Both lists are
  doubly linked, the keys are pairwise distinct, every node is in the chain of its
  bucket, the element count is right and the load is at most three quarters of a
  table size that is a multiple of four. The container compares keys with the
  default \<^verbatim>\<open>std::equal_to\<close>.\<close>

definition wf_lhm :: "('k, 'v) store \<Rightarrow> addr \<Rightarrow> addr list \<Rightarrow> bool" where
  "wf_lhm s this as \<longleftrightarrow>
     (case maps s this of None \<Rightarrow> False
      | Some m \<Rightarrow>
          (case hash_table m of None \<Rightarrow> False
           | Some tbl \<Rightarrow>
               distinct as \<and>
               seg (fld next s) (head m) as None \<and>
               seg (fld prev s) (tail m) (rev as) None \<and>
               element_count m = length as \<and>
               length tbl = table_size m \<and>
               0 < table_size m \<and> 4 dvd table_size m \<and>
               4 * length as \<le> 3 * table_size m \<and>
               equal_func m = (=) \<and>
               distinct (map (key_at s) as) \<and>
               buckets_ok (hash_func m) (table_size m) (fld data s)
                 (fld hash_next s) (fld hash_prev s) tbl as))"

text \<open>The allocator has never handed out an address from \<open>next_node\<close> on.\<close>

definition alloc_ok :: "('k, 'v) store \<Rightarrow> bool" where
  "alloc_ok s \<longleftrightarrow> (\<forall>a. next_node s \<le> a \<longrightarrow> nodes s a = None)"

definition entries :: "('k, 'v) store \<Rightarrow> addr list \<Rightarrow> ('k \<times> 'v) list" where
  "entries s as = map (\<lambda>a. the (fld data s a)) as"

section \<open>Store updates as total functions\<close>

definition upd :: "('k, 'v) store \<Rightarrow> addr \<Rightarrow> (('k, 'v) Node \<Rightarrow> ('k, 'v) Node) \<Rightarrow> ('k, 'v) store" where
  "upd s a g = s\<lparr>nodes := (nodes s)(a := map_option g (nodes s a))\<rparr>"

definition del :: "('k, 'v) store \<Rightarrow> addr \<Rightarrow> ('k, 'v) store" where
  "del s a = s\<lparr>nodes := (nodes s)(a := None)\<rparr>"

definition setm :: "('k, 'v) store \<Rightarrow> addr \<Rightarrow> 'k linked_hashmap \<Rightarrow> ('k, 'v) store" where
  "setm s this m = s\<lparr>maps := (maps s)(this \<mapsto> m)\<rparr>"

section \<open>Example stores\<close>

text \<open>A store in which nothing has been allocated yet.\<close>

definition empty_store :: "(nat, nat) store" where
  "empty_store = \<lparr>nodes = (\<lambda>_. None), maps = (\<lambda>_. None), next_node = 0\<rparr>"

text \<open>The container at address 0 holding the single entry \<open>(1, 10)\<close>, and the store
  after that entry has been erased through the iterator \<^verbatim>\<open>find(1)\<close>.\<close>

definition one_entry_store :: "(nat, nat) store" where
  "one_entry_store =
     fst (the (insert_lhm (the (linked_hashmap_ctor (\<lambda>k. k) (=) empty_store 0)) 0 (1, 10)))"

definition erased_store :: "(nat, nat) store" where
  "erased_store = snd (the (erase one_entry_store 0 \<lparr>node = Some 0, map_ptr = Some 0\<rparr>))"

section \<open>Sequences of insertions\<close>

text \<open>The client code \<^verbatim>\<open>for (auto &kv : kvs) m.insert(kv);\<close>.\<close>

fun insert_all ::
  "('k, 'v) store \<Rightarrow> addr \<Rightarrow> ('k \<times> 'v) list \<Rightarrow> ('k, 'v) store option" where
  "insert_all s this [] = Some s"
| "insert_all s this (kv # kvs) = do {
     r \<leftarrow> insert_lhm s this kv;
     insert_all (fst r) this kvs }"

text \<open>The capacity of a container is the private field \<^verbatim>\<open>table_size\<close>.\<close>

definition capacity :: "('k, 'v) store \<Rightarrow> addr \<Rightarrow> nat option" where
  "capacity s this = map_option table_size (maps s this)"

text \<open>The container at address 0 after \<open>(7, 70)\<close>, \<open>(23, 230)\<close> and \<open>(39, 390)\<close> have been
  inserted into a fresh container: with the identity as hash function the three keys
  share bucket 7 of the sixteen, and their nodes are at the addresses 0, 1 and 2. Then
  the store after the middle entry has been erased through the iterator \<^verbatim>\<open>find(23)\<close>.\<close>

definition three_entry_store :: "(nat, nat) store" where
  "three_entry_store =
     the (insert_all (the (linked_hashmap_ctor (\<lambda>k. k) (=) empty_store 0)) 0
       [(7, 70), (23, 230), (39, 390)])"

definition middle_erased_store :: "(nat, nat) store" where
  "middle_erased_store =
     snd (the (erase three_entry_store 0 \<lparr>node = Some 1, map_ptr = Some 0\<rparr>))"

section \<open>Writes through references\<close>

text \<open>A write \<^verbatim>\<open>ref = v\<close> through a reference \<^verbatim>\<open>T&\<close> that \<^verbatim>\<open>at\<close>, \<^verbatim>\<open>operator[]\<close> or an
  iterator has returned for the node at \<open>a\<close>. The key of \<^verbatim>\<open>pair<const Key, T>\<close> cannot
  be written.\<close>

definition assign_value :: "('k, 'v) store \<Rightarrow> addr \<Rightarrow> 'v \<Rightarrow> ('k, 'v) store option" where
  "assign_value s a v = upd_node s a (\<lambda>n. n\<lparr>data := (fst (data n), v)\<rparr>)"

section \<open>Sequences of operations and their specification\<close>

text \<open>The mutating operations a client applies to a container: \<^verbatim>\<open>m.insert({k, v})\<close>,
  \<^verbatim>\<open>m.erase(m.find(k))\<close> (where a thrown \<^verbatim>\<open>invalid_iterator\<close> is caught and ignored),
  \<^verbatim>\<open>m.clear()\<close>, \<^verbatim>\<open>m[k]\<close> and \<^verbatim>\<open>m[k] = v\<close>.\<close>

datatype ('k, 'v) operation = Insert 'k 'v | Erase 'k | Clear | Index 'k | Put 'k 'v

fun run_op ::
  "'v \<Rightarrow> ('k, 'v) store \<Rightarrow> addr \<Rightarrow> ('k, 'v) operation \<Rightarrow> ('k, 'v) store option" where
  "run_op dflt s this (Insert k v) = do { r \<leftarrow> insert_lhm s this (k, v); Some (fst r) }"
| "run_op dflt s this (Erase k) = do {
     it \<leftarrow> find_lhm s this k;
     r \<leftarrow> erase s this it;
     Some (snd r) }"
| "run_op dflt s this Clear = clear s this"
| "run_op dflt s this (Index k) = do { r \<leftarrow> operator_index dflt s this k; Some (fst r) }"
| "run_op dflt s this (Put k v) = do {
     r \<leftarrow> operator_index dflt s this k;
     assign_value (fst r) (snd r) v }"

fun run_ops ::
  "'v \<Rightarrow> ('k, 'v) store \<Rightarrow> addr \<Rightarrow> ('k, 'v) operation list \<Rightarrow> ('k, 'v) store option" where
  "run_ops dflt s this [] = Some s"
| "run_ops dflt s this (x # xs) = do { s' \<leftarrow> run_op dflt s this x; run_ops dflt s' this xs }"

text \<open>What the specification says the operations do to the sequence of entries, which is
  kept in order of first insertion: inserting a present key changes nothing, an absent
  key goes to the end; erasing removes the entry of the key; assigning to \<^verbatim>\<open>m[k]\<close>
  replaces the value of a present key in place.\<close>

fun spec_op :: "'v \<Rightarrow> ('k \<times> 'v) list \<Rightarrow> ('k, 'v) operation \<Rightarrow> ('k \<times> 'v) list" where
  "spec_op dflt es (Insert k v) = (if k \<in> fst ` set es then es else es @ [(k, v)])"
| "spec_op dflt es (Erase k) = filter (\<lambda>e. fst e \<noteq> k) es"
| "spec_op dflt es Clear = []"
| "spec_op dflt es (Index k) = (if k \<in> fst ` set es then es else es @ [(k, dflt)])"
| "spec_op dflt es (Put k v) =
     (if k \<in> fst ` set es then map (\<lambda>e. if fst e = k then (k, v) else e) es
      else es @ [(k, v)])"

definition spec_ops :: "'v \<Rightarrow> ('k \<times> 'v) list \<Rightarrow> ('k, 'v) operation list \<Rightarrow> ('k \<times> 'v) list" where
  "spec_ops dflt es ops = foldl (spec_op dflt) es ops"

text \<open>The operations that only remove entries.\<close>

fun erasing :: "('k, 'v) operation \<Rightarrow> bool" where
  "erasing (Erase k) = True"
| "erasing Clear = True"
| "erasing (Insert k v) = False"
| "erasing (Index k) = False"
| "erasing (Put k v) = False"

text \<open>\<open>frame_ok this s as s' as'\<close>: going from \<open>s\<close> to \<open>s'\<close>, the container at \<open>this\<close> with
  nodes \<open>as\<close> has changed only its own object, its own nodes and nodes allocated since,
  and its nodes \<open>as'\<close> in \<open>s'\<close> are among those.\<close>

definition frame_ok ::
  "addr \<Rightarrow> ('k, 'v) store \<Rightarrow> addr list \<Rightarrow> ('k, 'v) store \<Rightarrow> addr list \<Rightarrow> bool" where
  "frame_ok this s as s' as' \<longleftrightarrow>
     (\<forall>t. t \<noteq> this \<longrightarrow> maps s' t = maps s t) \<and>
     (\<forall>x. x \<notin> set as \<and> x < next_node s \<longrightarrow> nodes s' x = nodes s x) \<and>
     next_node s \<le> next_node s' \<and>
     (\<forall>x\<in>set as'. x \<in> set as \<or> next_node s \<le> x)"

text \<open>Thirteen pairs with distinct keys; the container at address 0 after they have been
  inserted into a fresh container; and that store with a second, fresh container at
  address 1.\<close>

definition thirteen_pairs :: "(nat \<times> nat) list" where
  "thirteen_pairs = [(0, 0), (1, 10), (2, 20), (3, 30), (4, 40), (5, 50), (6, 60), (7, 70),
     (8, 80), (9, 90), (10, 100), (11, 110), (12, 120)]"

definition thirteen_store :: "(nat, nat) store" where
  "thirteen_store =
     the (insert_all (the (linked_hashmap_ctor (\<lambda>k. k) (=) empty_store 0)) 0 thirteen_pairs)"

definition two_containers_store :: "(nat, nat) store" where
  "two_containers_store = the (linked_hashmap_ctor (\<lambda>k. k) (=) thirteen_store 1)"

text \<open>\<open>copied dflt s other s' this\<close>: in \<open>s'\<close> the container at \<open>this\<close> is an independent copy
  of what the container at \<open>other\<close> was in \<open>s\<close>. Both iterate as \<open>other\<close> did, the
  capacities agree, and no sequence of operations on one changes the iteration of the
  other.\<close>

definition copied ::
  "'v \<Rightarrow> ('k, 'v) store \<Rightarrow> addr \<Rightarrow> ('k, 'v) store \<Rightarrow> addr \<Rightarrow> bool" where
  "copied dflt s other s' this \<longleftrightarrow>
     iterate s' this = iterate s other \<and> iterate s' other = iterate s other \<and>
     capacity s' this = capacity s other \<and> capacity s' other = capacity s other \<and>
     (\<forall>ops. \<exists>s''. run_ops dflt s' this ops = Some s'' \<and> iterate s'' other = iterate s' other) \<and>
     (\<forall>ops. \<exists>s''. run_ops dflt s' other ops = Some s'' \<and> iterate s'' this = iterate s' this)"

section \<open>Properties of the list predicates\<close>

lemma hd_opt_simps [simp]: "hd_opt [] = None" "hd_opt (x # xs) = Some x"
  by (simp_all add: hd_opt_def)

lemma last_opt_simps [simp]: "last_opt [] = None" "last_opt (xs @ [x]) = Some x"
  by (simp_all add: last_opt_def)

lemma last_opt_rev [simp]: "last_opt (rev xs) = hd_opt xs"
  by (cases xs) (simp_all add: last_opt_def)

lemma hd_opt_rev [simp]: "hd_opt (rev xs) = last_opt xs"
  by (cases xs rule: rev_cases) simp_all

lemma hd_opt_append: "hd_opt (xs @ ys) = (if xs = [] then hd_opt ys else hd_opt xs)"
  by (cases xs) simp_all

lemma last_opt_append: "last_opt (xs @ ys) = (if ys = [] then last_opt xs else last_opt ys)"
  by (simp add: last_opt_def)

lemma last_opt_Cons: "last_opt (x # xs) = (if xs = [] then Some x else last_opt xs)"
  by (simp add: last_opt_def)

lemma seg_append: "seg nx c (xs @ ys) e \<longleftrightarrow> (\<exists>mid. seg nx c xs mid \<and> seg nx mid ys e)"
  by (induction xs arbitrary: c) (auto split: option.splits)

lemma seg_frame: "(\<And>a. a \<in> set as \<Longrightarrow> nx' a = nx a) \<Longrightarrow> seg nx' c as e = seg nx c as e"
  by (induction as arbitrary: c) (auto split: option.splits)

lemma seg_hd: "seg nx c as None \<Longrightarrow> c = hd_opt as"
  by (cases as) auto

lemma seg_allocated: "seg nx c as e \<Longrightarrow> a \<in> set as \<Longrightarrow> nx a \<noteq> None"
  by (induction as arbitrary: c) (auto split: option.splits)

lemma seg_mid: "seg nx c (xs @ a # ys) e \<Longrightarrow> nx a = Some (case ys of [] \<Rightarrow> e | y # _ \<Rightarrow> Some y)"
  by (induction xs arbitrary: c) (auto split: option.splits list.splits)

lemma seg_snoc:
  assumes "seg nx c as None" and "a \<notin> set as" and "distinct as"
    and "nx' a = Some None"
    and "as \<noteq> [] \<Longrightarrow> nx' (last as) = Some (Some a)"
    and "\<And>b. b \<in> set (butlast as) \<Longrightarrow> nx' b = nx b"
  shows "seg nx' (if as = [] then Some a else c) (as @ [a]) None"
  using assms
proof (induction as arbitrary: c)
  case Nil
  then show ?case by simp
next
  case (Cons x xs)
  show ?case
  proof (cases "xs = []")
    case True
    with Cons.prems show ?thesis by (auto split: option.splits)
  next
    case False
    from Cons.prems(1) obtain c' where c: "c = Some x" "nx x = Some c'" "seg nx c' xs None"
      by (auto split: option.splits)
    have "seg nx' (if xs = [] then Some a else c') (xs @ [a]) None"
      using Cons.prems False by (intro Cons.IH c) auto
    moreover have "nx' x = nx x" using Cons.prems(6)[of x] False by simp
    ultimately show ?thesis using c False by simp
  qed
qed

lemma seg_remove:
  assumes "seg nx c (xs @ a # ys) None" and "distinct (xs @ a # ys)"
    and "xs \<noteq> [] \<Longrightarrow> nx' (last xs) = Some (hd_opt ys)"
    and "\<And>b. b \<in> set (butlast xs) \<union> set ys \<Longrightarrow> nx' b = nx b"
  shows "seg nx' (if xs = [] then hd_opt ys else c) (xs @ ys) None"
  using assms
proof (induction xs arbitrary: c)
  case Nil
  from Nil.prems(1) obtain c' where "nx a = Some c'" "seg nx c' ys None"
    by (auto split: option.splits)
  then have "seg nx (hd_opt ys) ys None" using seg_hd by blast
  then show ?case using Nil.prems(4) by (simp add: seg_frame[of ys nx' nx])
next
  case (Cons x xs)
  from Cons.prems(1) obtain c' where c: "c = Some x" "nx x = Some c'" "seg nx c' (xs @ a # ys) None"
    by (auto split: option.splits)
  show ?case
  proof (cases "xs = []")
    case True
    from c True have "seg nx (hd_opt ys) ys None"
      using seg_hd by (fastforce split: option.splits)
    then have "seg nx' (hd_opt ys) ys None"
      using Cons.prems(4) by (simp add: seg_frame[of ys nx' nx])
    then show ?thesis using True c Cons.prems(3) by simp
  next
    case False
    have "seg nx' (if xs = [] then hd_opt ys else c') (xs @ ys) None"
      using Cons.prems False by (intro Cons.IH c) auto
    moreover have "nx' x = nx x" using Cons.prems(4)[of x] False by simp
    ultimately show ?thesis using c False by simp
  qed
qed

lemma seg_cons:
  assumes "seg nx c as None" and "nx' a = Some c" and "\<And>b. b \<in> set as \<Longrightarrow> nx' b = nx b"
  shows "seg nx' (Some a) (a # as) None"
  using assms by (simp add: seg_frame[of as nx' nx])

section \<open>Lookup and iteration on a well-formed container\<close>

lemma wf_lhmD:
  assumes "wf_lhm s this as"
  obtains m tbl where "maps s this = Some m" "hash_table m = Some tbl" "distinct as"
    "seg (fld next s) (head m) as None" "seg (fld prev s) (tail m) (rev as) None"
    "element_count m = length as" "length tbl = table_size m" "0 < table_size m"
    "4 dvd table_size m" "4 * length as \<le> 3 * table_size m" "equal_func m = (=)"
    "distinct (map (key_at s) as)"
    "buckets_ok (hash_func m) (table_size m) (fld data s) (fld hash_next s) (fld hash_prev s) tbl as"
  using assms unfolding wf_lhm_def by (auto split: option.splits)

lemma buckets_okD:
  assumes "buckets_ok hf n dat hn hp tbl as" and "i < n"
  shows "seg hn (tbl ! i) (rev (chain hf n dat as i)) None"
    and "seg hp (hd_opt (chain hf n dat as i)) (chain hf n dat as i) None"
  using assms by (simp_all add: buckets_ok_def)

lemma seg_fld_Cons:
  "seg (fld f s) c (a # as) e \<longleftrightarrow>
     c = Some a \<and> (\<exists>n. nodes s a = Some n \<and> seg (fld f s) (f n) as e)"
  by (cases "nodes s a") (simp_all add: fld_def)

lemma seg_fld_nodes:
  "seg (fld f s) c as e \<Longrightarrow> a \<in> set as \<Longrightarrow> \<exists>n. nodes s a = Some n"
  using seg_allocated[of "fld f s" c as e a] by (cases "nodes s a") (simp_all add: fld_def)

lemma wf_lhm_nodes: "wf_lhm s this as \<Longrightarrow> a \<in> set as \<Longrightarrow> \<exists>n. nodes s a = Some n"
  by (erule wf_lhmD) (rule seg_fld_nodes)

lemma wf_lhm_fresh: "wf_lhm s this as \<Longrightarrow> alloc_ok s \<Longrightarrow> a \<in> set as \<Longrightarrow> a < next_node s"
  using wf_lhm_nodes[of s this as a] unfolding alloc_ok_def by (fastforce simp: not_le[symmetric])

lemma find_node_loop_seg:
  "seg (fld hash_next s) c bs None \<Longrightarrow>
   find_node_loop s (=) key c = Some (find (\<lambda>a. key_at s a = Some key) bs)"
proof (induction bs arbitrary: c)
  case Nil
  then show ?case by (simp add: find_node_loop.simps)
next
  case (Cons b bs)
  from Cons.prems obtain n where n: "c = Some b" "nodes s b = Some n"
    "seg (fld hash_next s) (hash_next n) bs None"
    unfolding seg_fld_Cons by blast
  have "key_at s b = Some (fst (data n))"
    using n(2) by (simp add: key_at_def fld_def)
  then show ?case
    using n Cons.IH[OF n(3)]
    by (subst find_node_loop.simps) auto
qed

lemma find_distinct_keys:
  assumes "distinct (map f as)" and "a \<in> set as" and "set bs \<subseteq> set as" and "a \<in> set bs"
  shows "find (\<lambda>x. f x = f a) bs = Some a"
  using assms(3,4)
proof (induction bs)
  case Nil
  then show ?case by simp
next
  case (Cons b bs)
  show ?case
  proof (cases "f b = f a")
    case True
    then have "b = a" using assms(1,2) Cons.prems(1) by (auto simp: distinct_map inj_on_def)
    then show ?thesis by simp
  next
    case False
    then show ?thesis using Cons by auto
  qed
qed

lemma find_node_wf:
  assumes "wf_lhm s this as"
  shows "find_node s this key = Some (find (\<lambda>a. key_at s a = Some key) as)"
proof (rule wf_lhmD[OF assms], goal_cases)
  case (1 m tbl)
  note m = 1(1,2,7,8,11) and dk = 1(12) and bk = 1(13)
  let ?i = "hash_func m key mod table_size m"
  let ?bs = "rev (chain (hash_func m) (table_size m) (fld data s) as ?i)"
  have i: "?i < table_size m" using m(4) by simp
  have loop: "find_node s this key = Some (find (\<lambda>a. key_at s a = Some key) ?bs)"
    using m i find_node_loop_seg[OF buckets_okD(1)[OF bk i]] by (simp add: find_node_def)
  have "find (\<lambda>a. key_at s a = Some key) ?bs = find (\<lambda>a. key_at s a = Some key) as"
  proof (cases "\<exists>a\<in>set as. key_at s a = Some key")
    case True
    then obtain a where a: "a \<in> set as" "key_at s a = Some key" by blast
    then have "bucket_of (hash_func m) (table_size m) (fld data s) a = Some ?i"
      by (auto simp: key_at_def bucket_of_def)
    then have "a \<in> set ?bs" using a by (simp add: chain_def)
    then have "find (\<lambda>x. key_at s x = key_at s a) ?bs = Some a"
      using dk a(1) by (intro find_distinct_keys[where as = as]) (auto simp: chain_def)
    moreover have "find (\<lambda>x. key_at s x = key_at s a) as = Some a"
      using dk a(1) by (intro find_distinct_keys[where as = as]) auto
    ultimately show ?thesis using a(2) by simp
  next
    case False
    then have "find (\<lambda>a. key_at s a = Some key) as = None"
      by (auto simp: find_None_iff)
    moreover have "find (\<lambda>a. key_at s a = Some key) ?bs = None"
      using False by (auto simp: find_None_iff chain_def)
    ultimately show ?thesis by simp
  qed
  with loop show ?thesis by simp
qed

lemma find_node_absent:
  "wf_lhm s this as \<Longrightarrow> \<forall>a\<in>set as. key_at s a \<noteq> Some key \<Longrightarrow> find_node s this key = Some None"
  by (simp add: find_node_wf find_None_iff)

lemma find_node_present:
  "wf_lhm s this as \<Longrightarrow> a \<in> set as \<Longrightarrow> key_at s a = Some key \<Longrightarrow>
   find_node s this key = Some (Some a)"
  using find_distinct_keys[of "key_at s" as a as]
  by (auto simp: find_node_wf elim!: wf_lhmD)

lemma iterate_loop_seg:
  "seg (fld next s) c as None \<Longrightarrow>
   iterate_loop s \<lparr>node = c, map_ptr = Some this\<rparr> (end_lhm this) out =
     Some (Inr (out @ entries s as))"
proof (induction as arbitrary: c out)
  case Nil
  then show ?case
    by (subst iterate_loop.simps) (simp add: iterator_neq_def iterator_eq_def end_lhm_def entries_def)
next
  case (Cons a as)
  from Cons.prems obtain n where n: "c = Some a" "nodes s a = Some n"
    "seg (fld next s) (next n) as None"
    unfolding seg_fld_Cons by blast
  show ?case
    using n Cons.IH[OF n(3), of "out @ [data n]"]
    by (subst iterate_loop.simps)
      (simp add: iterator_neq_def iterator_eq_def end_lhm_def entries_def iterator_deref_def
        iterator_pre_inc_def fld_def)
qed

lemma iterate_wf: "wf_lhm s this as \<Longrightarrow> iterate s this = Some (Inr (entries s as))"
  by (erule wf_lhmD) (simp add: iterate_def begin_lhm_def iterate_loop_seg)

section \<open>Effects of the memory primitives\<close>

lemma upd_node_eq: "nodes s a \<noteq> None \<Longrightarrow> upd_node s a g = Some (upd s a g)"
  by (auto simp: upd_node_def upd_def)

lemma delete_Node_eq: "nodes s a \<noteq> None \<Longrightarrow> delete_Node s a = Some (del s a)"
  by (auto simp: delete_Node_def del_def)

lemma upd_map_eq: "maps s this = Some m \<Longrightarrow> upd_map s this f = Some (setm s this (f m))"
  by (simp add: upd_map_def setm_def)

lemma upd_simps [simp]:
  "maps (upd s a g) = maps s"
  "next_node (upd s a g) = next_node s"
  "nodes (upd s a g) a = map_option g (nodes s a)"
  "x \<noteq> a \<Longrightarrow> nodes (upd s a g) x = nodes s x"
  "(nodes (upd s a g) x = None) = (nodes s x = None)"
  by (simp_all add: upd_def)

lemma del_simps [simp]:
  "maps (del s a) = maps s"
  "next_node (del s a) = next_node s"
  "nodes (del s a) a = None"
  "x \<noteq> a \<Longrightarrow> nodes (del s a) x = nodes s x"
  "fld f (del s a) = (fld f s)(a := None)"
  by (auto simp: del_def fld_def)

lemma setm_simps [simp]:
  "maps (setm s this m) this = Some m"
  "t \<noteq> this \<Longrightarrow> maps (setm s this m) t = maps s t"
  "next_node (setm s this m) = next_node s"
  "nodes (setm s this m) = nodes s"
  "fld f (setm s this m) = fld f s"
  by (auto simp: setm_def fld_def)

lemma new_Node_simps [simp]:
  "snd (new_Node s d) = next_node s"
  "maps (fst (new_Node s d)) = maps s"
  "next_node (fst (new_Node s d)) = Suc (next_node s)"
  "nodes (fst (new_Node s d)) (next_node s) = Some (Node_ctor d)"
  "x \<noteq> next_node s \<Longrightarrow> nodes (fst (new_Node s d)) x = nodes s x"
  "fld f (fst (new_Node s d)) = (fld f s)(next_node s := Some (f (Node_ctor d)))"
  by (auto simp: new_Node_def fld_def)

lemma Node_ctor_simps [simp]:
  "data (Node_ctor d) = d" "prev (Node_ctor d) = None" "next (Node_ctor d) = None"
  "hash_prev (Node_ctor d) = None" "hash_next (Node_ctor d) = None"
  by (simp_all add: Node_ctor_def)

lemma fld_None_iff [simp]: "(fld f s a = None) = (nodes s a = None)"
  by (simp add: fld_def)

lemma fld_upd_other: "(\<And>n. f (g n) = f n) \<Longrightarrow> fld f (upd s a g) = fld f s"
  by (auto simp: upd_def fld_def map_option.compositionality comp_def)

lemma fld_upd_simps [simp]:
  "fld data (upd s a (next_update k)) = fld data s"
  "fld data (upd s a (prev_update k)) = fld data s"
  "fld data (upd s a (hash_next_update k)) = fld data s"
  "fld data (upd s a (hash_prev_update k)) = fld data s"
  "fld next (upd s a (prev_update k)) = fld next s"
  "fld next (upd s a (hash_next_update k)) = fld next s"
  "fld next (upd s a (hash_prev_update k)) = fld next s"
  "fld prev (upd s a (next_update k)) = fld prev s"
  "fld prev (upd s a (hash_next_update k)) = fld prev s"
  "fld prev (upd s a (hash_prev_update k)) = fld prev s"
  "fld hash_next (upd s a (next_update k)) = fld hash_next s"
  "fld hash_next (upd s a (prev_update k)) = fld hash_next s"
  "fld hash_next (upd s a (hash_prev_update k)) = fld hash_next s"
  "fld hash_prev (upd s a (next_update k)) = fld hash_prev s"
  "fld hash_prev (upd s a (prev_update k)) = fld hash_prev s"
  "fld hash_prev (upd s a (hash_next_update k)) = fld hash_prev s"
  by (simp_all add: fld_upd_other)

lemma fld_upd_same [simp]:
  "nodes s a \<noteq> None \<Longrightarrow> fld next (upd s a (next_update (\<lambda>_. v))) = (fld next s)(a := Some v)"
  "nodes s a \<noteq> None \<Longrightarrow> fld prev (upd s a (prev_update (\<lambda>_. v))) = (fld prev s)(a := Some v)"
  "nodes s a \<noteq> None \<Longrightarrow>
     fld hash_next (upd s a (hash_next_update (\<lambda>_. v))) = (fld hash_next s)(a := Some v)"
  "nodes s a \<noteq> None \<Longrightarrow>
     fld hash_prev (upd s a (hash_prev_update (\<lambda>_. v))) = (fld hash_prev s)(a := Some v)"
  by (auto simp: upd_def fld_def)

lemma fld_Some_iff: "fld f s a = Some v \<longleftrightarrow> (\<exists>n. nodes s a = Some n \<and> f n = v)"
  by (auto simp: fld_def)

lemma key_at_simps [simp]:
  "key_at (upd s a (next_update k)) = key_at s"
  "key_at (upd s a (prev_update k)) = key_at s"
  "key_at (upd s a (hash_next_update k)) = key_at s"
  "key_at (upd s a (hash_prev_update k)) = key_at s"
  "key_at (setm s this m) = key_at s"
  by (simp_all add: key_at_def fun_eq_iff)

lemma entries_simps [simp]:
  "entries (upd s a (next_update k)) = entries s"
  "entries (upd s a (prev_update k)) = entries s"
  "entries (upd s a (hash_next_update k)) = entries s"
  "entries (upd s a (hash_prev_update k)) = entries s"
  "entries (setm s this m) = entries s"
  by (simp_all add: entries_def fun_eq_iff)

lemma alloc_ok_simps [simp]:
  "alloc_ok (upd s a g) = alloc_ok s"
  "alloc_ok (setm s this m) = alloc_ok s"
  by (simp_all add: alloc_ok_def)

section \<open>Pushing on and removing from the bucket chains\<close>

lemma chain_append: "chain hf n dat (xs @ ys) i = chain hf n dat xs i @ chain hf n dat ys i"
  by (simp add: chain_def)

lemma chain_cong:
  "(\<And>x. x \<in> set as \<Longrightarrow> dat' x = dat x) \<Longrightarrow> chain hf n dat' as i = chain hf n dat as i"
  unfolding chain_def by (rule filter_cong) (simp_all add: bucket_of_def)

lemma chain_single:
  "dat a = Some d \<Longrightarrow> chain hf n dat [a] i = (if hf (fst d) mod n = i then [a] else [])"
  by (cases d) (auto simp: chain_def bucket_of_def)

lemma set_chain: "x \<in> set (chain hf n dat as i) \<longleftrightarrow> x \<in> set as \<and> bucket_of hf n dat x = Some i"
  by (simp add: chain_def)

lemma distinct_chain: "distinct as \<Longrightarrow> distinct (chain hf n dat as i)"
  by (simp add: chain_def)

lemma buckets_ok_frame:
  assumes "buckets_ok hf n dat hn hp tbl as"
    and "\<And>x. x \<in> set as \<Longrightarrow> dat' x = dat x"
    and "\<And>x. x \<in> set as \<Longrightarrow> hn' x = hn x"
    and "\<And>x. x \<in> set as \<Longrightarrow> hp' x = hp x"
  shows "buckets_ok hf n dat' hn' hp' tbl as"
proof -
  have c: "chain hf n dat' as i = chain hf n dat as i" for i
    using assms(2) by (rule chain_cong)
  have "seg hn' c bs e = seg hn c bs e" if "set bs \<subseteq> set as" for c bs e
    using that assms(3) by (intro seg_frame) auto
  moreover have "seg hp' c bs e = seg hp c bs e" if "set bs \<subseteq> set as" for c bs e
    using that assms(4) by (intro seg_frame) auto
  moreover have "set (chain hf n dat as i) \<subseteq> set as" for i
    by (auto simp: set_chain)
  ultimately show ?thesis
    using assms(1) by (simp add: buckets_ok_def c)
qed

lemma buckets_ok_push:
  assumes bk: "buckets_ok hf n dat hn hp tbl as"
    and a: "a \<notin> set as" and dist: "distinct as" and len: "length tbl = n" and n: "0 < n"
    and dat: "\<And>x. x \<in> set as \<Longrightarrow> dat' x = dat x" "dat' a = Some d"
    and i: "i = hf (fst d) mod n"
    and hn: "\<And>x. x \<in> set as \<Longrightarrow> hn' x = hn x" "hn' a = Some (tbl ! i)"
    and hp: "hp' a = Some None" "\<And>b. tbl ! i = Some b \<Longrightarrow> hp' b = Some (Some a)"
      "\<And>x. x \<in> set as \<Longrightarrow> tbl ! i \<noteq> Some x \<Longrightarrow> hp' x = hp x"
  shows "buckets_ok hf n dat' hn' hp' (tbl[i := Some a]) (as @ [a])"
  unfolding buckets_ok_def
proof (intro allI impI)
  fix j assume j: "j < n"
  let ?C = "\<lambda>j. chain hf n dat as j"
  have i_lt: "i < n" using i n by simp
  have ch: "chain hf n dat' (as @ [a]) k = ?C k @ (if k = i then [a] else [])" for k
    using dat i by (auto simp: chain_append chain_cong[of as dat' dat] chain_single)
  have fwd: "seg hn (tbl ! j) (rev (?C j)) None" and bwd: "seg hp (hd_opt (?C j)) (?C j) None"
    using buckets_okD[OF bk j] by simp_all
  have sub: "set (?C j) \<subseteq> set as" by (auto simp: set_chain)
  have hd_i: "tbl ! i = hd_opt (rev (?C i))"
    using buckets_okD(1)[OF bk i_lt] by (rule seg_hd)
  show "seg hn' ((tbl[i := Some a]) ! j) (rev (chain hf n dat' (as @ [a]) j)) None \<and>
        seg hp' (hd_opt (chain hf n dat' (as @ [a]) j)) (chain hf n dat' (as @ [a]) j) None"
  proof (cases "j = i")
    case False
    have "tbl ! i \<noteq> Some x" if "x \<in> set (?C j)" for x
    proof
      assume "tbl ! i = Some x"
      then have "x \<in> set (?C i)" using hd_i by (cases "?C i" rule: rev_cases) auto
      with that False show False by (auto simp: set_chain)
    qed
    then have "seg hp' c (?C j) e = seg hp c (?C j) e" for c e
      using sub hp(3) by (intro seg_frame) auto
    moreover have "seg hn' c (rev (?C j)) e = seg hn c (rev (?C j)) e" for c e
      using sub hn(1) by (intro seg_frame) auto
    ultimately show ?thesis using False fwd bwd len j by (simp add: ch)
  next
    case True
    have f: "seg hn' (Some a) (a # rev (?C i)) None"
      using fwd True sub hn by (intro seg_cons[where nx = hn and c = "tbl ! i"]) auto
    have "seg hp' (if ?C i = [] then Some a else hd_opt (?C i)) (?C i @ [a]) None"
    proof (rule seg_snoc[where nx = hp])
      show "seg hp (hd_opt (?C i)) (?C i) None" using bwd True by simp
      show "a \<notin> set (?C i)" using a by (simp add: set_chain)
      show "distinct (?C i)" using dist by (rule distinct_chain)
      show "hp' a = Some None" by (rule hp(1))
      show "hp' (last (?C i)) = Some (Some a)" if "?C i \<noteq> []"
        using that hd_i by (intro hp(2)) (simp add: hd_opt_rev last_opt_def)
      show "hp' b = hp b" if "b \<in> set (butlast (?C i))" for b
      proof (rule hp(3))
        show "b \<in> set as" using that sub True by (auto dest: in_set_butlastD)
        have "?C i \<noteq> []" using that by auto
        moreover have "b \<noteq> last (?C i)"
          using that distinct_chain[OF dist, of hf n dat i] \<open>?C i \<noteq> []\<close>
          by (metis append_butlast_last_id distinct_append disjoint_iff list.set_intros(1))
        ultimately show "tbl ! i \<noteq> Some b" using hd_i by (simp add: hd_opt_rev last_opt_def)
      qed
    qed
    moreover have "(if ?C i = [] then Some a else hd_opt (?C i)) = hd_opt (?C i @ [a])"
      by (simp add: hd_opt_append)
    ultimately show ?thesis using f True len i_lt by (simp add: ch)
  qed
qed

lemma buckets_ok_remove:
  assumes bk: "buckets_ok hf n dat hn hp tbl (xs @ a # ys)"
    and dist: "distinct (xs @ a # ys)" and len: "length tbl = n" and n: "0 < n"
    and da: "dat a = Some d" and i: "i = hf (fst d) mod n"
    and own: "hn a = Some na" "hp a = Some pa"
    and dat: "\<And>x. x \<in> set (xs @ ys) \<Longrightarrow> dat' x = dat x"
    and hn: "\<And>p. pa = Some p \<Longrightarrow> hn' p = Some na"
      "\<And>x. x \<in> set (xs @ ys) \<Longrightarrow> pa \<noteq> Some x \<Longrightarrow> hn' x = hn x"
    and tbl: "tbl' = (if pa = None then tbl[i := na] else tbl)"
    and hp: "\<And>q. na = Some q \<Longrightarrow> hp' q = Some pa"
      "\<And>x. x \<in> set (xs @ ys) \<Longrightarrow> na \<noteq> Some x \<Longrightarrow> hp' x = hp x"
  shows "buckets_ok hf n dat' hn' hp' tbl' (xs @ ys)"
  unfolding buckets_ok_def
proof (intro allI impI)
  fix j assume j: "j < n"
  let ?X = "\<lambda>j. chain hf n dat xs j" and ?Y = "\<lambda>j. chain hf n dat ys j"
  have i_lt: "i < n" using i n by simp
  have "chain hf n dat' (xs @ ys) k = chain hf n dat (xs @ ys) k" for k
    using dat by (intro chain_cong) auto
  then have ch': "chain hf n dat' (xs @ ys) k = ?X k @ ?Y k" for k
    by (simp add: chain_append)
  have ch: "chain hf n dat (xs @ a # ys) k = ?X k @ (if k = i then [a] else []) @ ?Y k" for k
    using chain_append[of hf n dat xs "[a] @ ys" k] chain_append[of hf n dat "[a]" ys k]
      chain_single[of dat a d hf n k, OF da] i by simp
  have dj: "distinct (chain hf n dat (xs @ a # ys) j)"
    using dist by (rule distinct_chain)
  have fwd_i: "seg hn (tbl ! i) (rev (?Y i) @ a # rev (?X i)) None"
    and bwd_i: "seg hp (hd_opt (?X i @ a # ?Y i)) (?X i @ a # ?Y i) None"
    using buckets_okD[OF bk i_lt] chain_append[of hf n dat xs "[a] @ ys" i]
      chain_append[of hf n dat "[a]" ys i] chain_single[of dat a d hf n i, OF da] i by simp_all
  have na: "na = last_opt (?X i)"
    using seg_mid[OF fwd_i] own(1) by (cases "?X i" rule: rev_cases) simp_all
  have pa: "pa = hd_opt (?Y i)"
    using seg_mid[OF bwd_i] own(2) by (cases "?Y i") simp_all
  have di: "distinct (?X i @ a # ?Y i)"
    using distinct_chain[OF dist, of hf n dat i] chain_append[of hf n dat xs "[a] @ ys" i]
      chain_append[of hf n dat "[a]" ys i] chain_single[of dat a d hf n i, OF da] i by simp
  show "seg hn' (tbl' ! j) (rev (chain hf n dat' (xs @ ys) j)) None \<and>
        seg hp' (hd_opt (chain hf n dat' (xs @ ys) j)) (chain hf n dat' (xs @ ys) j) None"
  proof (cases "j = i")
    case False
    have fwd: "seg hn (tbl ! j) (rev (?X j @ ?Y j)) None"
      and bwd: "seg hp (hd_opt (?X j @ ?Y j)) (?X j @ ?Y j) None"
      using buckets_okD[OF bk j] False by (simp_all add: ch)
    have sub: "set (?X j @ ?Y j) \<subseteq> set (xs @ ys)" by (auto simp: set_chain)
    have nopa: "pa \<noteq> Some x" "na \<noteq> Some x" if "x \<in> set (?X j @ ?Y j)" for x
    proof -
      have "bucket_of hf n dat x = Some j" using that by (auto simp: set_chain)
      moreover have "bucket_of hf n dat x = Some i" if "pa = Some x \<or> na = Some x"
      proof -
        have "x \<in> set (?X i) \<or> x \<in> set (?Y i)"
          using that pa na
          by (cases "?Y i"; cases "?X i" rule: rev_cases) (auto simp: last_opt_def)
        then show ?thesis by (auto simp: set_chain)
      qed
      ultimately show "pa \<noteq> Some x" "na \<noteq> Some x" using False by auto
    qed
    have "seg hn' c (rev (?X j @ ?Y j)) e = seg hn c (rev (?X j @ ?Y j)) e" for c e
      using sub nopa(1) hn(2) by (intro seg_frame) auto
    moreover have "seg hp' c (?X j @ ?Y j) e = seg hp c (?X j @ ?Y j) e" for c e
      using sub nopa(2) hp(2) by (intro seg_frame) auto
    moreover have "tbl' ! j = tbl ! j" using False tbl by simp
    ultimately show ?thesis using fwd bwd by (simp add: ch')
  next
    case True
    have "seg hn' (if rev (?Y i) = [] then hd_opt (rev (?X i)) else tbl ! i)
            (rev (?Y i) @ rev (?X i)) None"
    proof (rule seg_remove[where nx = hn and a = a])
      show "seg hn (tbl ! i) (rev (?Y i) @ a # rev (?X i)) None" by (rule fwd_i)
      show "distinct (rev (?Y i) @ a # rev (?X i))" using di by auto
      show "hn' (last (rev (?Y i))) = Some (hd_opt (rev (?X i)))" if "rev (?Y i) \<noteq> []"
        using that pa na by (intro hn(1)[THEN trans]) (auto simp: last_rev hd_opt_def split: list.splits)
      show "hn' b = hn b" if "b \<in> set (butlast (rev (?Y i))) \<union> set (rev (?X i))" for b
      proof (rule hn(2))
        have "b \<in> set (?Y i) \<union> set (?X i)"
          using that in_set_butlastD[of b "rev (?Y i)"] by auto
        then show "b \<in> set (xs @ ys)" by (auto simp: set_chain)
        show "pa \<noteq> Some b"
        proof
          assume "pa = Some b"
          then obtain zs where zs: "?Y i = b # zs" using pa by (cases "?Y i") auto
          then have "b \<notin> set (butlast (rev (?Y i)))" using di by (auto simp: butlast_append)
          moreover have "b \<notin> set (rev (?X i))" using di zs by auto
          ultimately show False using that by blast
        qed
      qed
    qed
    moreover have "tbl' ! i = (if rev (?Y i) = [] then hd_opt (rev (?X i)) else tbl ! i)"
      using tbl pa na len i_lt by (cases "?Y i") (auto simp: hd_opt_rev)
    moreover have "seg hp' (if ?X i = [] then hd_opt (?Y i) else hd_opt (?X i @ a # ?Y i))
            (?X i @ ?Y i) None"
    proof (rule seg_remove[where nx = hp and a = a])
      show "seg hp (hd_opt (?X i @ a # ?Y i)) (?X i @ a # ?Y i) None" by (rule bwd_i)
      show "distinct (?X i @ a # ?Y i)" by (rule di)
      show "hp' (last (?X i)) = Some (hd_opt (?Y i))" if "?X i \<noteq> []"
        using that pa na by (intro hp(1)[THEN trans]) (auto simp: last_opt_def)
      show "hp' b = hp b" if "b \<in> set (butlast (?X i)) \<union> set (?Y i)" for b
      proof (rule hp(2))
        show "b \<in> set (xs @ ys)" using that by (auto simp: set_chain dest: in_set_butlastD)
        show "na \<noteq> Some b"
        proof
          assume "na = Some b"
          then obtain zs where zs: "?X i = zs @ [b]"
            using na by (cases "?X i" rule: rev_cases) (auto simp: last_opt_def)
          then have "b \<notin> set (butlast (?X i))" using di by auto
          moreover have "b \<notin> set (?Y i)" using di zs by auto
          ultimately show False using that by blast
        qed
      qed
    qed
    moreover have "(if ?X i = [] then hd_opt (?Y i) else hd_opt (?X i @ a # ?Y i)) =
        hd_opt (?X i @ ?Y i)"
      by (simp add: hd_opt_append)
    ultimately show ?thesis using True by (simp add: ch')
  qed
qed

section \<open>Insertion of a new key\<close>

lemma new_Node_None_iff [simp]:
  "(nodes (fst (new_Node s d)) x = None) = (x \<noteq> next_node s \<and> nodes s x = None)"
  by (simp add: new_Node_def)

lemma wf_lhm_tail: "wf_lhm s this as \<Longrightarrow> maps s this = Some m \<Longrightarrow> tail m = last_opt as"
  by (erule wf_lhmD) (use seg_hd in fastforce)

lemma wf_lhm_head: "wf_lhm s this as \<Longrightarrow> maps s this = Some m \<Longrightarrow> head m = hd_opt as"
  by (erule wf_lhmD) (use seg_hd in fastforce)

lemma load_step:
  fixes l ts :: nat
  assumes "4 * l < 3 * ts" and "4 dvd ts"
  shows "4 * Suc l \<le> 3 * ts"
  using assms by (elim dvdE) simp

lemma wf_lhm_append:
  assumes wf: "wf_lhm s this as" and a: "a \<notin> set as"
    and m: "maps s this = Some m" "hash_table m = Some tbl"
    and load: "4 * length as < 3 * table_size m"
    and m': "maps s' this = Some (m\<lparr>head := (if as = [] then Some a else head m), tail := Some a,
        hash_table := Some (tbl[i := Some a]), element_count := Suc (length as)\<rparr>)"
    and i: "i = hash_func m k mod table_size m"
    and dat: "\<And>x. x \<in> set as \<Longrightarrow> fld data s' x = fld data s x" "fld data s' a = Some (k, v)"
    and absent: "\<forall>x\<in>set as. key_at s x \<noteq> Some k"
    and nx: "fld next s' a = Some None" "as \<noteq> [] \<Longrightarrow> fld next s' (last as) = Some (Some a)"
      "\<And>x. x \<in> set (butlast as) \<Longrightarrow> fld next s' x = fld next s x"
    and pv: "fld prev s' a = Some (last_opt as)" "\<And>x. x \<in> set as \<Longrightarrow> fld prev s' x = fld prev s x"
    and hn: "\<And>x. x \<in> set as \<Longrightarrow> fld hash_next s' x = fld hash_next s x"
      "fld hash_next s' a = Some (tbl ! i)"
    and hp: "fld hash_prev s' a = Some None"
      "\<And>b. tbl ! i = Some b \<Longrightarrow> fld hash_prev s' b = Some (Some a)"
      "\<And>x. x \<in> set as \<Longrightarrow> tbl ! i \<noteq> Some x \<Longrightarrow> fld hash_prev s' x = fld hash_prev s x"
  shows "wf_lhm s' this (as @ [a])"
proof (rule wf_lhmD[OF wf], goal_cases)
  case (1 m0 tbl0)
  have eq: "m0 = m" "tbl0 = tbl" using 1(1,2) m by simp_all
  note w = 1(3-13)[unfolded eq]
  have tl: "tail m = last_opt as" using wf m(1) by (rule wf_lhm_tail)
  have "distinct (as @ [a])" using w(1) a by simp
  moreover have "seg (fld next s') (if as = [] then Some a else head m) (as @ [a]) None"
    using w(2) a w(1) nx by (rule seg_snoc)
  moreover have "seg (fld prev s') (Some a) (a # rev as) None"
    using w(3) pv by (intro seg_cons[where nx = "fld prev s" and c = "tail m"]) (simp_all add: tl)
  moreover have "4 * Suc (length as) \<le> 3 * table_size m"
    using load w(7) by (rule load_step)
  moreover have "distinct (map (key_at s') (as @ [a]))"
  proof -
    have "key_at s' x = key_at s x" if "x \<in> set as" for x
      using dat(1)[OF that] by (simp add: key_at_def)
    then have eq: "map (key_at s') as = map (key_at s) as" by simp
    have ka: "key_at s' a = Some k" using dat(2) by (simp add: key_at_def)
    show ?thesis using w(10) absent by (auto simp: eq ka)
  qed
  moreover have "buckets_ok (hash_func m) (table_size m) (fld data s') (fld hash_next s')
      (fld hash_prev s') (tbl[i := Some a]) (as @ [a])"
    by (rule buckets_ok_push[OF w(11) a w(1) w(5) w(6) dat _ hn hp]) (auto simp: i)
  ultimately show ?case
    using m' w(5,6,7,9) by (simp add: wf_lhm_def)
qed

lemma entries_append_new:
  assumes "\<And>x. x \<in> set as \<Longrightarrow> fld data s' x = fld data s x" and "fld data s' a = Some d"
  shows "entries s' (as @ [a]) = entries s as @ [d]"
  using assms by (simp add: entries_def)

lemma insert_new_no_rehash:
  assumes wf: "wf_lhm s this as" and al: "alloc_ok s"
    and absent: "\<forall>x\<in>set as. key_at s x \<noteq> Some k"
    and m: "maps s this = Some m" and load: "4 * length as < 3 * table_size m"
  shows "\<exists>s'. insert_lhm s this (k, v) =
             Some (s', \<lparr>node = Some (next_node s), map_ptr = Some this\<rparr>, True) \<and>
           wf_lhm s' this (as @ [next_node s]) \<and> alloc_ok s' \<and>
           next_node s' = Suc (next_node s) \<and>
           entries s' (as @ [next_node s]) = entries s as @ [(k, v)] \<and>
           (\<forall>m'. maps s' this = Some m' \<longrightarrow> table_size m' = table_size m) \<and>
           (\<forall>t. t \<noteq> this \<longrightarrow> maps s' t = maps s t) \<and>
           (\<forall>x. x \<notin> set as \<and> x \<noteq> next_node s \<longrightarrow> nodes s' x = nodes s x)"
proof (rule wf_lhmD[OF wf], goal_cases)
  case (1 m0 tbl)
  have eq: "m0 = m" using 1(1) m by simp
  note w = 1(2-13)[unfolded eq]
  let ?a = "next_node s"
  let ?i = "hash_func m k mod table_size m"
  have fresh: "nodes s ?a = None" using al by (simp add: alloc_ok_def)
  have alloc: "nodes s x \<noteq> None" if "x \<in> set as" for x
    using wf_lhm_nodes[OF wf that] by auto
  have a: "?a \<notin> set as" using fresh wf_lhm_nodes[OF wf, of ?a] by auto
  have ne: "x \<noteq> ?a" if "x \<in> set as" for x using that a by auto
  have i: "?i < length tbl" using w(6,7) by simp
  have hd: "head m = hd_opt as" and tl: "tail m = last_opt as"
    using wf m wf_lhm_head wf_lhm_tail by blast+
  have fn: "find_node s this k = Some None"
    using wf absent by (rule find_node_absent)
  have nl: "\<not> 3 * table_size m \<le> 4 * element_count m" using load w(5) by simp
  have ilt: "?i < table_size m" using w(7) by simp
  have bhd: "tbl ! ?i = hd_opt (rev (chain (hash_func m) (table_size m) (fld data s) as ?i))"
    using buckets_okD(1)[OF w(12) ilt] by (rule seg_hd)
  have b_in: "b \<in> set as" if "tbl ! ?i = Some b" for b
    using that bhd by (cases "chain (hash_func m) (table_size m) (fld data s) as ?i" rule: rev_cases)
      (auto simp: chain_def dest!: arg_cong[where f = set])
  define s3 where "s3 = (if as = [] then setm (fst (new_Node s (k, v))) this
        (m\<lparr>head := Some ?a, tail := Some ?a\<rparr>)
      else setm (upd (upd (fst (new_Node s (k, v))) (last as) (next_update (\<lambda>_. Some ?a)))
        ?a (prev_update (\<lambda>_. Some (last as)))) this (m\<lparr>tail := Some ?a\<rparr>))"
  define s4 where "s4 = upd s3 ?a (hash_next_update (\<lambda>_. tbl ! ?i))"
  define s5 where "s5 = (case tbl ! ?i of None \<Rightarrow> s4
      | Some b \<Rightarrow> upd s4 b (hash_prev_update (\<lambda>_. Some ?a)))"
  define m7 where "m7 = m\<lparr>head := (if as = [] then Some ?a else head m), tail := Some ?a,
        hash_table := Some (tbl[?i := Some ?a]), element_count := Suc (length as)\<rparr>"
  define s7 where "s7 = setm s5 this m7"
  have m3: "maps s3 this = Some (m\<lparr>head := (if as = [] then Some ?a else head m), tail := Some ?a\<rparr>)"
    by (simp add: s3_def)
  have n3: "(nodes s3 x = None) = (x \<noteq> ?a \<and> nodes s x = None)" for x
    by (simp add: s3_def)
  have step3: "(case head m of
        None \<Rightarrow> upd_map (fst (new_Node s (k, v))) this (\<lambda>m. m\<lparr>head := Some ?a, tail := Some ?a\<rparr>)
      | Some h \<Rightarrow> do {
          t \<leftarrow> tail m;
          s' \<leftarrow> upd_node (fst (new_Node s (k, v))) t (\<lambda>x. x\<lparr>next := Some ?a\<rparr>);
          s'' \<leftarrow> upd_node s' ?a (\<lambda>x. x\<lparr>prev := Some t\<rparr>);
          upd_map s'' this (\<lambda>m. m\<lparr>tail := Some ?a\<rparr>) }) = Some s3"
  proof (cases "as = []")
    case True
    then show ?thesis using hd m by (simp add: s3_def upd_map_eq)
  next
    case False
    then obtain h where h: "head m = Some h" using hd by (cases as) auto
    have t: "tail m = Some (last as)" using tl False by (simp add: last_opt_def)
    have "nodes s (last as) \<noteq> None" "last as \<noteq> ?a" using False alloc ne by auto
    then show ?thesis using False h t m
      by (simp add: s3_def upd_node_eq upd_map_eq)
  qed
  have step4: "upd_node s3 ?a (\<lambda>x. x\<lparr>hash_next := tbl ! ?i\<rparr>) = Some s4"
    by (simp add: s4_def upd_node_eq n3)
  have step5: "(case tbl ! ?i of None \<Rightarrow> Some s4
         | Some b \<Rightarrow> upd_node s4 b (\<lambda>x. x\<lparr>hash_prev := Some ?a\<rparr>)) = Some s5"
  proof (cases "tbl ! ?i")
    case None
    then show ?thesis by (simp add: s5_def)
  next
    case (Some b)
    then have "nodes s b \<noteq> None" using b_in alloc by blast
    then show ?thesis using Some by (simp add: s5_def s4_def upd_node_eq n3)
  qed
  have m5: "maps s5 this = maps s3 this"
    by (simp add: s5_def s4_def split: option.splits)
  have ins: "insert_lhm s this (k, v) = Some (s7, \<lparr>node = Some ?a, map_ptr = Some this\<rparr>, True)"
    unfolding insert_lhm_def using fn m nl step3 step4 step5 m3 m5 w(1) w(5,6,7) i
    by (simp add: upd_map_eq s7_def m7_def setm_def Let_def)
  have dat: "fld data s7 = (fld data s)(?a := Some (k, v))"
    by (simp add: s7_def s5_def s4_def s3_def split: option.splits)
  have nx: "fld next s7 = (if as = [] then (fld next s)(?a := Some None)
       else (fld next s)(?a := Some None, last as := Some (Some ?a)))"
    using alloc by (simp add: s7_def s5_def s4_def s3_def split: option.splits)
  have pv: "fld prev s7 = (fld prev s)(?a := Some (last_opt as))"
    by (simp add: s7_def s5_def s4_def s3_def last_opt_def split: option.splits)
  have hn: "fld hash_next s7 = (fld hash_next s)(?a := Some (tbl ! ?i))"
    by (simp add: s7_def s5_def s4_def s3_def n3 split: option.splits)
  have hp: "fld hash_prev s7 = (case tbl ! ?i of None \<Rightarrow> (fld hash_prev s)(?a := Some None)
      | Some b \<Rightarrow> (fld hash_prev s)(?a := Some None, b := Some (Some ?a)))"
    using alloc b_in by (auto simp: s7_def s5_def s4_def s3_def n3 split: option.splits)
  have la: "as = [] \<or> last as \<noteq> ?a" "as = [] \<or> ?a \<noteq> last as"
    by (metis a last_in_set)+
  have nb: "tbl ! ?i \<noteq> Some ?a" using b_in a by auto
  have wf7: "wf_lhm s7 this (as @ [?a])"
  proof (rule wf_lhm_append[OF wf a m w(1) load, where k = k and v = v and i = ?i])
    show "maps s7 this = Some (m\<lparr>head := if as = [] then Some ?a else head m, tail := Some ?a,
        hash_table := Some (tbl[?i := Some ?a]), element_count := Suc (length as)\<rparr>)"
      by (simp add: s7_def m7_def)
    show "fld next s7 (last as) = Some (Some ?a)" if "as \<noteq> []" using that by (simp add: nx)
    show "fld next s7 x = fld next s x" if "x \<in> set (butlast as)" for x
    proof -
      have "x \<in> set as" using that by (rule in_set_butlastD)
      moreover have "x \<noteq> last as" if "as \<noteq> []"
        using \<open>x \<in> set (butlast as)\<close> w(2) that
        by (metis append_butlast_last_id distinct_append disjoint_iff list.set_intros(1))
      ultimately show ?thesis using ne by (auto simp: nx)
    qed
    show "fld hash_prev s7 x = fld hash_prev s x" if "x \<in> set as" "tbl ! ?i \<noteq> Some x" for x
      using that ne by (auto simp: hp split: option.splits)
    show "fld hash_prev s7 b = Some (Some ?a)" if "tbl ! ?i = Some b" for b
      using that by (simp add: hp)
  qed (use ne la nb absent in \<open>auto simp: dat nx pv hn hp split: option.splits\<close>)
  have "alloc_ok s7" using al
    by (simp add: s7_def s5_def s4_def s3_def alloc_ok_def split: option.splits)
  moreover have "next_node s7 = Suc ?a"
    by (simp add: s7_def s5_def s4_def s3_def split: option.splits)
  moreover have "entries s7 (as @ [?a]) = entries s as @ [(k, v)]"
    using ne by (intro entries_append_new) (simp_all add: dat)
  moreover have "table_size m' = table_size m" if "maps s7 this = Some m'" for m'
    using that by (auto simp: s7_def m7_def)
  moreover have "maps s7 t = maps s t" if "t \<noteq> this" for t
    using that by (simp add: s7_def s5_def s4_def s3_def split: option.splits)
  moreover have "nodes s7 x = nodes s x" if "x \<notin> set as" "x \<noteq> ?a" for x
  proof -
    have "x \<noteq> last as" if "as \<noteq> []" using that \<open>x \<notin> set as\<close> by auto
    moreover have "x \<noteq> b" if "tbl ! ?i = Some b" for b using that b_in \<open>x \<notin> set as\<close> by auto
    ultimately show ?thesis using that
      by (auto simp: s7_def s5_def s4_def s3_def split: option.splits)
  qed
  ultimately show ?case using ins wf7 by blast
qed

section \<open>Construction\<close>

lemma buckets_ok_empty: "buckets_ok hf n dat hn hp (replicate n None) []"
  by (simp add: buckets_ok_def chain_def)

lemma linked_hashmap_ctor_wf:
  "\<exists>s'. linked_hashmap_ctor Hash (=) s this = Some s' \<and> wf_lhm s' this [] \<and>
        nodes s' = nodes s \<and> next_node s' = next_node s \<and>
        (\<forall>t. t \<noteq> this \<longrightarrow> maps s' t = maps s t) \<and>
        (\<forall>m. maps s' this = Some m \<longrightarrow> table_size m = 16 \<and> hash_func m = Hash)"
  by (simp add: linked_hashmap_ctor_def initialize_table_def upd_map_def INITIAL_SIZE_def
      wf_lhm_def buckets_ok_empty)

lemma distinct_map_Some: "distinct (map Some xs) = distinct xs"
  by (induction xs) auto

lemma key_at_entries:
  assumes "wf_lhm s this as"
  shows "map (key_at s) as = map (\<lambda>e. Some (fst e)) (entries s as)"
proof -
  have "key_at s a = Some (fst (the (fld data s a)))" if "a \<in> set as" for a
  proof -
    from wf_lhm_nodes[OF assms that] obtain n where "nodes s a = Some n" by blast
    then show ?thesis by (simp add: key_at_def fld_def)
  qed
  then show ?thesis by (simp add: entries_def)
qed

lemma key_present:
  assumes "wf_lhm s this as" and "k \<in> fst ` set (entries s as)"
  shows "\<exists>a\<in>set as. key_at s a = Some k"
proof -
  have "Some k \<in> set (map (key_at s) as)"
    using assms(2) unfolding key_at_entries[OF assms(1)] by auto
  then show ?thesis by auto
qed

lemma key_absent:
  assumes "wf_lhm s this as" and "k \<notin> fst ` set (entries s as)"
  shows "\<forall>a\<in>set as. key_at s a \<noteq> Some k"
proof -
  have "Some k \<notin> set (map (key_at s) as)"
    using assms(2) unfolding key_at_entries[OF assms(1)] by auto
  then show ?thesis by force
qed

lemma distinct_keys_entries:
  assumes "wf_lhm s this as"
  shows "distinct (map fst (entries s as))"
proof -
  have "distinct (map (key_at s) as)" using assms by (rule wf_lhmD)
  then have "distinct (map Some (map fst (entries s as)))"
    unfolding key_at_entries[OF assms] by (simp add: comp_def)
  then show ?thesis by (simp only: distinct_map_Some)
qed

section \<open>Stepping and dereferencing iterators\<close>

lemma entries_Nil [simp]: "entries s [] = []"
  by (simp add: entries_def)

lemma alloc_ok_empty_store: "alloc_ok empty_store"
  by (simp add: alloc_ok_def empty_store_def)

lemma wf_lhm_first:
  assumes "wf_lhm s this as" and "as \<noteq> []"
  shows "\<exists>n. nodes s (hd as) = Some n \<and> prev n = None"
proof (rule wf_lhmD[OF assms(1)], goal_cases)
  case (1 m tbl)
  from assms(2) obtain a bs where as: "as = a # bs" by (cases as) auto
  have "seg (fld prev s) (tail m) (rev bs @ a # []) None" using 1(5) as by simp
  from seg_mid[OF this] show ?case using as by (simp add: fld_Some_iff)
qed

lemma example_one_entry:
  "\<exists>s1 s2. linked_hashmap_ctor (\<lambda>k. k) (=) empty_store 0 = Some s1 \<and> wf_lhm s1 0 [] \<and>
     alloc_ok s1 \<and> next_node s1 = 0 \<and>
     insert_lhm s1 0 (1, 10) = Some (s2, \<lparr>node = Some 0, map_ptr = Some 0\<rparr>, True) \<and>
     wf_lhm s2 0 [0] \<and> alloc_ok s2 \<and> entries s2 [0] = [(1, 10)]"
proof -
  obtain s1 where s1: "linked_hashmap_ctor (\<lambda>k. k) (=) empty_store 0 = Some s1"
    "wf_lhm s1 0 []" "nodes s1 = nodes empty_store" "next_node s1 = next_node empty_store"
    "\<forall>m. maps s1 0 = Some m \<longrightarrow> table_size m = 16 \<and> hash_func m = (\<lambda>k. k)"
    using linked_hashmap_ctor_wf[of "\<lambda>k. k" empty_store 0] by blast
  have al: "alloc_ok s1" using s1(3,4) alloc_ok_empty_store by (simp add: alloc_ok_def)
  obtain m where m: "maps s1 0 = Some m" using s1(2) by (rule wf_lhmD)
  then have "4 * length ([]::addr list) < 3 * table_size m" using s1(5) by simp
  from insert_new_no_rehash[OF s1(2) al _ m this, of 1 10]
  show ?thesis using s1 al by (auto simp: empty_store_def)
qed

text \<open>Claim C10. Decrementing an iterator that has an owning container never raises an
  exception: from the iterator at the first entry of a non-empty container it yields the
  past-the-end iterator, and from the past-the-end iterator of an empty container it
  yields the past-the-end iterator again. This holds for the prefix and postfix forms
  and for \<^verbatim>\<open>const_iterator\<close>.\<close>

theorem decrement_with_owner_never_raises:
  "(map_ptr it \<noteq> None \<longrightarrow>
      (\<forall>e. iterator_pre_dec s it \<noteq> Some (Inl e) \<and> iterator_post_dec s it \<noteq> Some (Inl e) \<and>
           const_iterator_pre_dec s it \<noteq> Some (Inl e))) \<and>
   (wf_lhm s this as \<and> as \<noteq> [] \<longrightarrow>
      begin_lhm s this = Some \<lparr>node = Some (hd as), map_ptr = Some this\<rparr> \<and>
      iterator_pre_dec s \<lparr>node = Some (hd as), map_ptr = Some this\<rparr> = Some (Inr (end_lhm this)) \<and>
      iterator_post_dec s \<lparr>node = Some (hd as), map_ptr = Some this\<rparr> =
        Some (Inr (end_lhm this, \<lparr>node = Some (hd as), map_ptr = Some this\<rparr>)) \<and>
      const_iterator_pre_dec s \<lparr>node = Some (hd as), map_ptr = Some this\<rparr> =
        Some (Inr (cend this))) \<and>
   (wf_lhm s this [] \<longrightarrow>
      iterator_pre_dec s (end_lhm this) = Some (Inr (end_lhm this)) \<and>
      iterator_post_dec s (end_lhm this) = Some (Inr (end_lhm this, end_lhm this)) \<and>
      const_iterator_pre_dec s (cend this) = Some (Inr (cend this)))"
proof (intro conjI impI allI)
  fix e assume "map_ptr it \<noteq> None"
  then show "iterator_pre_dec s it \<noteq> Some (Inl e)"
    by (auto simp: iterator_pre_dec_def bind_eq_Some_conv split: option.splits)
  from \<open>map_ptr it \<noteq> None\<close> show "iterator_post_dec s it \<noteq> Some (Inl e)"
    by (auto simp: iterator_post_dec_def bind_eq_Some_conv split: option.splits)
  from \<open>map_ptr it \<noteq> None\<close> show "const_iterator_pre_dec s it \<noteq> Some (Inl e)"
    by (auto simp: const_iterator_pre_dec_def bind_eq_Some_conv split: option.splits)
next
  assume a: "wf_lhm s this as \<and> as \<noteq> []"
  then obtain m where m: "maps s this = Some m" by (auto elim: wf_lhmD)
  have hd: "head m = Some (hd as)"
    using wf_lhm_head[of s this as m] a m by (cases as) auto
  from wf_lhm_first[of s this as] a obtain n where n: "nodes s (hd as) = Some n" "prev n = None"
    by blast
  show "begin_lhm s this = Some \<lparr>node = Some (hd as), map_ptr = Some this\<rparr>"
    using m hd by (simp add: begin_lhm_def)
  show "iterator_pre_dec s \<lparr>node = Some (hd as), map_ptr = Some this\<rparr> = Some (Inr (end_lhm this))"
    using n by (simp add: iterator_pre_dec_def end_lhm_def)
  show "iterator_post_dec s \<lparr>node = Some (hd as), map_ptr = Some this\<rparr> =
        Some (Inr (end_lhm this, \<lparr>node = Some (hd as), map_ptr = Some this\<rparr>))"
    using n by (simp add: iterator_post_dec_def end_lhm_def)
  show "const_iterator_pre_dec s \<lparr>node = Some (hd as), map_ptr = Some this\<rparr> =
        Some (Inr (cend this))"
    using n by (simp add: const_iterator_pre_dec_def cend_def)
next
  assume a: "wf_lhm s this []"
  then obtain m where m: "maps s this = Some m" by (auto elim: wf_lhmD)
  have tl: "tail m = None" using wf_lhm_tail[OF a m] by simp
  show "iterator_pre_dec s (end_lhm this) = Some (Inr (end_lhm this))"
    using m tl by (simp add: iterator_pre_dec_def end_lhm_def)
  show "iterator_post_dec s (end_lhm this) = Some (Inr (end_lhm this, end_lhm this))"
    using m tl by (simp add: iterator_post_dec_def end_lhm_def)
  show "const_iterator_pre_dec s (cend this) = Some (Inr (cend this))"
    using m tl by (simp add: const_iterator_pre_dec_def cend_def)
qed

theorem decrement_with_owner_never_raises_witness:
  "\<exists>s1 s2. linked_hashmap_ctor (\<lambda>k. k) (=) empty_store 0 = Some s1 \<and>
     insert_lhm s1 0 (1, 10) = Some (s2, \<lparr>node = Some 0, map_ptr = Some 0\<rparr>, True) \<and>
     begin_lhm s2 0 = Some \<lparr>node = Some 0, map_ptr = Some 0\<rparr> \<and>
     iterator_pre_dec s2 \<lparr>node = Some 0, map_ptr = Some 0\<rparr> = Some (Inr (end_lhm 0)) \<and>
     iterator_pre_dec s1 (end_lhm 0) = Some (Inr (end_lhm 0)) \<and>
     map_ptr (end_lhm 0) \<noteq> None \<and> iterator_pre_dec s1 (end_lhm 0) \<noteq> Some (Inl invalid_iterator)"
proof -
  from example_one_entry obtain s1 s2 where
    ex: "linked_hashmap_ctor (\<lambda>k. k) (=) empty_store 0 = Some s1" "wf_lhm s1 0 []"
      "insert_lhm s1 0 (1, 10) = Some (s2, \<lparr>node = Some 0, map_ptr = Some 0\<rparr>, True)"
      "wf_lhm s2 0 [0]"
    by blast
  have "map_ptr (end_lhm 0) \<noteq> None" by (simp add: end_lhm_def)
  with ex decrement_with_owner_never_raises[of "end_lhm 0" s1 0 "[]"]
    decrement_with_owner_never_raises[of "end_lhm 0" s2 0 "[0]"]
  show ?thesis by (intro exI[of _ s1] exI[of _ s2]) simp
qed

section \<open>Rehashing\<close>

lemma buckets_ok_head_in:
  assumes "buckets_ok hf n dat hn hp tbl as" and "i < n" and "tbl ! i = Some b"
  shows "b \<in> set as" and "hn b \<noteq> None"
proof -
  let ?C = "chain hf n dat as i"
  have sg: "seg hn (tbl ! i) (rev ?C) None" using assms(1,2) by (rule buckets_okD)
  then have "tbl ! i = hd_opt (rev ?C)" by (rule seg_hd)
  then have b: "b \<in> set (rev ?C)" using assms(3) by (cases "rev ?C") auto
  then show "b \<in> set as" by (simp add: set_chain)
  show "hn b \<noteq> None" using sg b by (rule seg_allocated)
qed

lemma rehash_loop_correct:
  assumes "seg (fld next s) c ys None" and "distinct (xs @ ys)" and "0 < n" and "length nt = n"
    and "buckets_ok hf n (fld data s) (fld hash_next s) (fld hash_prev s) nt xs"
  shows "\<exists>s' nt'. rehash_loop hf n s nt c = Some (s', nt') \<and> length nt' = n \<and>
      buckets_ok hf n (fld data s') (fld hash_next s') (fld hash_prev s') nt' (xs @ ys) \<and>
      fld next s' = fld next s \<and> fld prev s' = fld prev s \<and> fld data s' = fld data s \<and>
      maps s' = maps s \<and> next_node s' = next_node s \<and>
      (\<forall>x. x \<notin> set (xs @ ys) \<longrightarrow> nodes s' x = nodes s x) \<and>
      (\<forall>x. (nodes s' x = None) = (nodes s x = None))"
  using assms
proof (induction ys arbitrary: s nt c xs)
  case Nil
  then show ?case by (subst rehash_loop.simps) simp
next
  case (Cons y ys)
  from Cons.prems(1) obtain ny where ny: "c = Some y" "nodes s y = Some ny"
    "seg (fld next s) (next ny) ys None"
    unfolding seg_fld_Cons by blast
  let ?i = "hf (fst (data ny)) mod n"
  have i: "?i < n" using Cons.prems(3) by simp
  have yx: "y \<notin> set xs" and dx: "distinct xs" using Cons.prems(2) by auto
  define s2 where "s2 = upd (upd s y (hash_prev_update (\<lambda>_. None))) y
      (hash_next_update (\<lambda>_. nt ! ?i))"
  define s3 where "s3 = (case nt ! ?i of None \<Rightarrow> s2
      | Some b \<Rightarrow> upd s2 b (hash_prev_update (\<lambda>_. Some y)))"
  have b_in: "b \<in> set xs \<and> nodes s b \<noteq> None" if "nt ! ?i = Some b" for b
    using buckets_ok_head_in[OF Cons.prems(5) i that] by simp
  have step3: "(case nt ! ?i of None \<Rightarrow> Some s2
      | Some b \<Rightarrow> upd_node s2 b (\<lambda>x. x\<lparr>hash_prev := Some y\<rparr>)) = Some s3"
    using b_in by (auto simp: s3_def s2_def upd_node_eq split: option.splits)
  have nn: "(nodes s3 x = None) = (nodes s x = None)" for x
    by (simp add: s3_def s2_def split: option.splits)
  have f: "fld next s3 = fld next s" "fld prev s3 = fld prev s" "fld data s3 = fld data s"
    "maps s3 = maps s" "next_node s3 = next_node s"
    by (simp_all add: s3_def s2_def split: option.splits)
  have hn: "fld hash_next s3 = (fld hash_next s)(y := Some (nt ! ?i))"
    using ny(2) by (simp add: s3_def s2_def split: option.splits)
  have hp: "fld hash_prev s3 = (case nt ! ?i of None \<Rightarrow> (fld hash_prev s)(y := Some None)
      | Some b \<Rightarrow> (fld hash_prev s)(y := Some None, b := Some (Some y)))"
    using ny(2) b_in by (auto simp: s3_def s2_def split: option.splits)
  have "fld next s3 y = Some (next ny)" using ny(2) by (simp add: f fld_def)
  then obtain ny' where ny': "nodes s3 y = Some ny'" "next ny' = next ny"
    by (auto simp: fld_Some_iff)
  have step2: "upd_node s y (\<lambda>x. x\<lparr>hash_prev := None\<rparr>) \<bind>
      (\<lambda>s1. upd_node s1 y (\<lambda>x. x\<lparr>hash_next := nt ! ?i\<rparr>) \<bind> g) = g s2" for g
    using ny(2) by (simp add: upd_node_eq s2_def)
  have unf: "rehash_loop hf n s nt c = rehash_loop hf n s3 (nt[?i := Some y]) (next ny)"
    using ny(1,2) i Cons.prems(3,4) step3 ny'
    by (subst rehash_loop.simps) (simp add: step2 Let_def)
  have bk3: "buckets_ok hf n (fld data s3) (fld hash_next s3) (fld hash_prev s3)
      (nt[?i := Some y]) (xs @ [y])"
  proof (rule buckets_ok_push[OF Cons.prems(5) yx dx Cons.prems(4,3), where d = "data ny"])
    show "fld data s3 y = Some (data ny)" using ny(2) by (simp add: f fld_def)
    show "fld hash_prev s3 x = fld hash_prev s x" if "x \<in> set xs" "nt ! ?i \<noteq> Some x" for x
      using that yx by (auto simp: hp split: option.splits)
    show "fld hash_prev s3 b = Some (Some y)" if "nt ! ?i = Some b" for b
      using that by (simp add: hp)
    show "fld hash_prev s3 y = Some None"
      using b_in yx by (auto simp: hp split: option.splits)
  qed (use yx in \<open>auto simp: f hn\<close>)
  have "\<exists>s' nt'. rehash_loop hf n s3 (nt[?i := Some y]) (next ny) = Some (s', nt') \<and>
      length nt' = n \<and>
      buckets_ok hf n (fld data s') (fld hash_next s') (fld hash_prev s') nt' ((xs @ [y]) @ ys) \<and>
      fld next s' = fld next s3 \<and> fld prev s' = fld prev s3 \<and> fld data s' = fld data s3 \<and>
      maps s' = maps s3 \<and> next_node s' = next_node s3 \<and>
      (\<forall>x. x \<notin> set ((xs @ [y]) @ ys) \<longrightarrow> nodes s' x = nodes s3 x) \<and>
      (\<forall>x. (nodes s' x = None) = (nodes s3 x = None))"
    using ny(3) Cons.prems(2,3,4) bk3 by (intro Cons.IH) (simp_all add: f)
  then obtain s' nt' where r: "rehash_loop hf n s3 (nt[?i := Some y]) (next ny) = Some (s', nt')"
    "length nt' = n"
    "buckets_ok hf n (fld data s') (fld hash_next s') (fld hash_prev s') nt' ((xs @ [y]) @ ys)"
    "fld next s' = fld next s3" "fld prev s' = fld prev s3" "fld data s' = fld data s3"
    "maps s' = maps s3" "next_node s' = next_node s3"
    "\<forall>x. x \<notin> set ((xs @ [y]) @ ys) \<longrightarrow> nodes s' x = nodes s3 x"
    "\<forall>x. (nodes s' x = None) = (nodes s3 x = None)"
    by blast
  have "nodes s' x = nodes s x" if "x \<notin> set (xs @ y # ys)" for x
  proof -
    have "nodes s' x = nodes s3 x" using r(9) that by simp
    moreover have "x \<noteq> b" if "nt ! ?i = Some b" for b using b_in[OF that] \<open>x \<notin> _\<close> by auto
    moreover have "x \<noteq> y" using that by simp
    ultimately show ?thesis by (auto simp: s3_def s2_def split: option.splits)
  qed
  then show ?case using r unf by (simp add: f nn)
qed

lemma rehash_wf:
  assumes wf: "wf_lhm s this as" and m: "maps s this = Some m"
  shows "\<exists>s' tbl'. rehash s this = Some s' \<and> wf_lhm s' this as \<and>
      maps s' this = Some (m\<lparr>hash_table := Some tbl', table_size := 2 * table_size m\<rparr>) \<and>
      fld data s' = fld data s \<and> next_node s' = next_node s \<and>
      (\<forall>t. t \<noteq> this \<longrightarrow> maps s' t = maps s t) \<and>
      (\<forall>x. x \<notin> set as \<longrightarrow> nodes s' x = nodes s x) \<and>
      (\<forall>x. (nodes s' x = None) = (nodes s x = None))"
proof (rule wf_lhmD[OF wf], goal_cases)
  case (1 m0 tbl)
  have eq: "m0 = m" using 1(1) m by simp
  note w = 1(2-13)[unfolded eq]
  let ?n = "table_size m * 2"
  have "\<exists>s' nt'. rehash_loop (hash_func m) ?n s (replicate ?n None) (head m) = Some (s', nt') \<and>
      length nt' = ?n \<and>
      buckets_ok (hash_func m) ?n (fld data s') (fld hash_next s') (fld hash_prev s') nt' ([] @ as) \<and>
      fld next s' = fld next s \<and> fld prev s' = fld prev s \<and> fld data s' = fld data s \<and>
      maps s' = maps s \<and> next_node s' = next_node s \<and>
      (\<forall>x. x \<notin> set ([] @ as) \<longrightarrow> nodes s' x = nodes s x) \<and>
      (\<forall>x. (nodes s' x = None) = (nodes s x = None))"
    using w(3,2,7) by (intro rehash_loop_correct) (simp_all add: buckets_ok_empty)
  then obtain s' nt' where r:
    "rehash_loop (hash_func m) ?n s (replicate ?n None) (head m) = Some (s', nt')"
    "length nt' = ?n"
    "buckets_ok (hash_func m) ?n (fld data s') (fld hash_next s') (fld hash_prev s') nt' as"
    "fld next s' = fld next s" "fld prev s' = fld prev s" "fld data s' = fld data s"
    "maps s' = maps s" "next_node s' = next_node s"
    "\<forall>x. x \<notin> set as \<longrightarrow> nodes s' x = nodes s x"
    "\<forall>x. (nodes s' x = None) = (nodes s x = None)"
    by auto
  let ?m' = "m\<lparr>hash_table := Some nt', table_size := ?n\<rparr>"
  let ?s = "setm s' this ?m'"
  have re: "rehash s this = Some ?s"
    using m r(1,7) by (simp add: rehash_def upd_map_eq Let_def)
  have ka: "key_at s' = key_at s" by (simp add: key_at_def fun_eq_iff r(6))
  have "wf_lhm ?s this as"
    using w r(2,3) by (simp add: wf_lhm_def r(4,5,6) ka mult.commute)
  then show ?case using re r
    by (intro exI[of _ ?s] exI[of _ nt']) (simp add: mult.commute)
qed

section \<open>Insertion in general\<close>

lemma entries_cong:
  "(\<And>x. x \<in> set as \<Longrightarrow> fld data s' x = fld data s x) \<Longrightarrow> entries s' as = entries s as"
  by (simp add: entries_def)

lemma key_at_cong: "fld data s' x = fld data s x \<Longrightarrow> key_at s' x = key_at s x"
  by (simp add: key_at_def)

lemma insert_new:
  assumes wf: "wf_lhm s this as" and al: "alloc_ok s"
    and absent: "k \<notin> fst ` set (entries s as)"
    and m: "maps s this = Some m"
  shows "\<exists>s'. insert_lhm s this (k, v) =
             Some (s', \<lparr>node = Some (next_node s), map_ptr = Some this\<rparr>, True) \<and>
           wf_lhm s' this (as @ [next_node s]) \<and> alloc_ok s' \<and>
           next_node s' = Suc (next_node s) \<and>
           entries s' (as @ [next_node s]) = entries s as @ [(k, v)] \<and>
           (\<forall>m'. maps s' this = Some m' \<longrightarrow> table_size m' =
              (if 3 * table_size m \<le> 4 * length as then 2 * table_size m else table_size m)) \<and>
           (\<forall>t. t \<noteq> this \<longrightarrow> maps s' t = maps s t) \<and>
           (\<forall>x. x \<notin> set as \<and> x \<noteq> next_node s \<longrightarrow> nodes s' x = nodes s x)"
proof (cases "3 * table_size m \<le> 4 * length as")
  case False
  have ab: "\<forall>x\<in>set as. key_at s x \<noteq> Some k" using wf absent by (rule key_absent)
  from False have "4 * length as < 3 * table_size m" by simp
  from insert_new_no_rehash[OF wf al ab m this, of v] False show ?thesis by simp
next
  case True
  have ab: "\<forall>x\<in>set as. key_at s x \<noteq> Some k" using wf absent by (rule key_absent)
  have cnt: "element_count m = length as" "0 < table_size m"
    using wf m by (auto elim!: wf_lhmD)
  from rehash_wf[OF wf m] obtain s1 tbl1 where s1: "rehash s this = Some s1" "wf_lhm s1 this as"
    "maps s1 this = Some (m\<lparr>hash_table := Some tbl1, table_size := 2 * table_size m\<rparr>)"
    "fld data s1 = fld data s" "next_node s1 = next_node s"
    "\<forall>t. t \<noteq> this \<longrightarrow> maps s1 t = maps s t"
    "\<forall>x. x \<notin> set as \<longrightarrow> nodes s1 x = nodes s x"
    "\<forall>x. (nodes s1 x = None) = (nodes s x = None)"
    by blast
  let ?m1 = "m\<lparr>hash_table := Some tbl1, table_size := 2 * table_size m\<rparr>"
  have al1: "alloc_ok s1" using al s1(5,8) by (simp add: alloc_ok_def)
  have ab1: "\<forall>x\<in>set as. key_at s1 x \<noteq> Some k" using ab by (simp add: key_at_def s1(4))
  have load1: "4 * length as < 3 * table_size ?m1"
    using wf m cnt by (auto elim!: wf_lhmD)
  have fn: "find_node s this k = Some None" using wf ab by (rule find_node_absent)
  have fn1: "find_node s1 this k = Some None" using s1(2) ab1 by (rule find_node_absent)
  have same: "insert_lhm s this (k, v) = insert_lhm s1 this (k, v)"
    unfolding insert_lhm_def using fn fn1 m s1(1,3) True cnt load1
    by simp
  have en: "entries s1 as = entries s as" by (simp add: entries_def s1(4))
  from insert_new_no_rehash[OF s1(2) al1 ab1 s1(3) load1, of v]
  show ?thesis using True same en s1(5,6,7) by auto
qed

lemma insert_existing:
  assumes wf: "wf_lhm s this as" and present: "k \<in> fst ` set (entries s as)"
  shows "\<exists>a\<in>set as. key_at s a = Some k \<and>
           insert_lhm s this (k, v) = Some (s, \<lparr>node = Some a, map_ptr = Some this\<rparr>, False)"
proof -
  from key_present[OF wf present] obtain a where a: "a \<in> set as" "key_at s a = Some k" by blast
  then have "find_node s this k = Some (Some a)" using wf by (intro find_node_present)
  then show ?thesis using a by (auto simp: insert_lhm_def)
qed

section \<open>Erasing an entry\<close>

lemma buckets_ok_links:
  assumes bk: "buckets_ok hf n dat hn hp tbl (xs @ a # ys)" and n: "0 < n"
    and da: "dat a = Some d" and i: "i = hf (fst d) mod n"
  shows "hn a = Some (last_opt (chain hf n dat xs i))"
    and "hp a = Some (hd_opt (chain hf n dat ys i))"
proof -
  let ?X = "chain hf n dat xs i" and ?Y = "chain hf n dat ys i"
  have i_lt: "i < n" using i n by simp
  have fwd_i: "seg hn (tbl ! i) (rev ?Y @ a # rev ?X) None"
    and bwd_i: "seg hp (hd_opt (?X @ a # ?Y)) (?X @ a # ?Y) None"
    using buckets_okD[OF bk i_lt] chain_append[of hf n dat xs "[a] @ ys" i]
      chain_append[of hf n dat "[a]" ys i] chain_single[of dat a d hf n i, OF da] i by simp_all
  show "hn a = Some (last_opt ?X)"
    using seg_mid[OF fwd_i] by (cases "?X" rule: rev_cases) simp_all
  show "hp a = Some (hd_opt ?Y)"
    using seg_mid[OF bwd_i] by (cases "?Y") simp_all
qed

lemma wf_lhm_remove:
  assumes wf: "wf_lhm s this (xs @ a # ys)"
    and m: "maps s this = Some m" "hash_table m = Some tbl" and n: "nodes s a = Some n"
    and i: "i = hash_func m (fst (data n)) mod table_size m"
    and m': "maps s' this = Some (m\<lparr>head := (if xs = [] then hd_opt ys else head m),
        tail := (if ys = [] then last_opt xs else tail m),
        hash_table := Some (if hash_prev n = None then tbl[i := hash_next n] else tbl),
        element_count := length (xs @ ys)\<rparr>)"
    and dat: "\<And>x. x \<in> set (xs @ ys) \<Longrightarrow> fld data s' x = fld data s x"
    and nx: "xs \<noteq> [] \<Longrightarrow> fld next s' (last xs) = Some (hd_opt ys)"
      "\<And>x. x \<in> set (butlast xs) \<union> set ys \<Longrightarrow> fld next s' x = fld next s x"
    and pv: "ys \<noteq> [] \<Longrightarrow> fld prev s' (hd ys) = Some (last_opt xs)"
      "\<And>x. x \<in> set xs \<union> set (tl ys) \<Longrightarrow> fld prev s' x = fld prev s x"
    and hn: "\<And>p. hash_prev n = Some p \<Longrightarrow> fld hash_next s' p = Some (hash_next n)"
      "\<And>x. x \<in> set (xs @ ys) \<Longrightarrow> hash_prev n \<noteq> Some x \<Longrightarrow>
         fld hash_next s' x = fld hash_next s x"
    and hp: "\<And>q. hash_next n = Some q \<Longrightarrow> fld hash_prev s' q = Some (hash_prev n)"
      "\<And>x. x \<in> set (xs @ ys) \<Longrightarrow> hash_next n \<noteq> Some x \<Longrightarrow>
         fld hash_prev s' x = fld hash_prev s x"
  shows "wf_lhm s' this (xs @ ys)"
proof (rule wf_lhmD[OF wf], goal_cases)
  case (1 m0 tbl0)
  have eq: "m0 = m" "tbl0 = tbl" using 1(1,2) m by simp_all
  note w = 1(3-13)[unfolded eq]
  have "distinct (xs @ ys)" using w(1) by auto
  moreover have "seg (fld next s') (if xs = [] then hd_opt ys else head m) (xs @ ys) None"
    using w(2) w(1) nx by (rule seg_remove)
  moreover have "seg (fld prev s') (if ys = [] then last_opt xs else tail m) (rev (xs @ ys)) None"
  proof -
    have "seg (fld prev s') (if rev ys = [] then hd_opt (rev xs) else tail m)
        (rev ys @ rev xs) None"
    proof (rule seg_remove[where nx = "fld prev s" and a = a])
      show "seg (fld prev s) (tail m) (rev ys @ a # rev xs) None" using w(3) by simp
      show "distinct (rev ys @ a # rev xs)" using w(1) by auto
      show "fld prev s' (last (rev ys)) = Some (hd_opt (rev xs))" if "rev ys \<noteq> []"
        using that pv(1) by (simp add: last_rev)
      show "fld prev s' b = fld prev s b" if "b \<in> set (butlast (rev ys)) \<union> set (rev xs)" for b
        using that by (intro pv(2)) (auto simp: butlast_rev)
    qed
    then show ?thesis by (simp split: if_splits)
  qed
  moreover have "4 * length (xs @ ys) \<le> 3 * table_size m" using w(8) by simp
  moreover have "distinct (map (key_at s') (xs @ ys))"
  proof -
    have "key_at s' x = key_at s x" if "x \<in> set (xs @ ys)" for x
      using dat[OF that] by (rule key_at_cong)
    then have eq: "map (key_at s') (xs @ ys) = map (key_at s) (xs @ ys)" by simp
    show ?thesis unfolding eq using w(10) by auto
  qed
  moreover have "buckets_ok (hash_func m) (table_size m) (fld data s') (fld hash_next s')
      (fld hash_prev s') (if hash_prev n = None then tbl[i := hash_next n] else tbl) (xs @ ys)"
    using w(11) w(1) w(5) w(6) _ i _ _ dat hn _ hp
    by (rule buckets_ok_remove[where d = "data n" and na = "hash_next n" and pa = "hash_prev n"])
      (simp_all add: n fld_def)
  ultimately show ?case
    using m' w(5,6,7,9) by (simp add: wf_lhm_def)
qed

lemma erase_valid:
  assumes wf: "wf_lhm s this (xs @ a # ys)"
  shows "\<exists>s'. erase s this \<lparr>node = Some a, map_ptr = Some this\<rparr> = Some (Inr (), s') \<and>
      wf_lhm s' this (xs @ ys) \<and> entries s' (xs @ ys) = entries s xs @ entries s ys \<and>
      next_node s' = next_node s \<and> nodes s' a = None \<and>
      (\<forall>m m'. maps s this = Some m \<longrightarrow> maps s' this = Some m' \<longrightarrow>
          table_size m' = table_size m) \<and>
      (\<forall>t. t \<noteq> this \<longrightarrow> maps s' t = maps s t) \<and>
      (\<forall>x. x \<notin> set (xs @ a # ys) \<longrightarrow> nodes s' x = nodes s x) \<and>
      (\<forall>x. nodes s x = None \<longrightarrow> nodes s' x = None)"
proof (rule wf_lhmD[OF wf], goal_cases)
  case (1 m tbl)
  note m = 1(1) and w = 1(2-13)
  from wf_lhm_nodes[OF wf, of a] obtain n where n: "nodes s a = Some n" by auto
  let ?i = "hash_func m (fst (data n)) mod table_size m"
  have i: "?i < length tbl" using w(6,7) by simp
  have alloc: "nodes s x \<noteq> None" if "x \<in> set (xs @ ys)" for x
    using wf_lhm_nodes[OF wf, of x] that by auto
  have ne: "x \<noteq> a" "a \<noteq> x" if "x \<in> set (xs @ ys)" for x using that w(2) by auto
  have pp: "prev n = last_opt xs"
    using seg_mid[of "fld prev s" "tail m" "rev ys" a "rev xs" None] w(4) n
    by (cases xs rule: rev_cases) (simp_all add: fld_def)
  have nn: "next n = hd_opt ys"
    using seg_mid[OF w(3)] n by (cases ys) (simp_all add: fld_def)
  have da: "fld data s a = Some (data n)" using n by (simp add: fld_def)
  have hl: "hash_next n = last_opt (chain (hash_func m) (table_size m) (fld data s) xs ?i)"
    "hash_prev n = hd_opt (chain (hash_func m) (table_size m) (fld data s) ys ?i)"
    using buckets_ok_links[OF w(12) w(7) da refl] n by (simp_all add: fld_Some_iff)
  have p_in: "p \<in> set ys" if "hash_prev n = Some p" for p
    using that hl(2) by (cases "chain (hash_func m) (table_size m) (fld data s) ys ?i")
      (auto simp: chain_def dest!: arg_cong[where f = set])
  have q_in: "q \<in> set xs" if "hash_next n = Some q" for q
    using that hl(1)
    by (cases "chain (hash_func m) (table_size m) (fld data s) xs ?i" rule: rev_cases)
      (auto simp: chain_def last_opt_def dest!: arg_cong[where f = set])
  have p'_in: "p \<in> set xs" if "prev n = Some p" for p
    using that pp by (cases xs rule: rev_cases) auto
  have q'_in: "q \<in> set ys" if "next n = Some q" for q
    using that nn by (cases ys) auto
  define s1 where "s1 = (case hash_prev n of
      Some p \<Rightarrow> upd s p (hash_next_update (\<lambda>_. hash_next n))
    | None \<Rightarrow> setm s this (m\<lparr>hash_table := Some (tbl[?i := hash_next n])\<rparr>))"
  define s2 where "s2 = (case hash_next n of
      Some q \<Rightarrow> upd s1 q (hash_prev_update (\<lambda>_. hash_prev n))
    | None \<Rightarrow> s1)"
  define m2 where "m2 = m\<lparr>hash_table := Some (if hash_prev n = None then tbl[?i := hash_next n] else tbl)\<rparr>"
  define s3 where "s3 = (case prev n of
      Some p \<Rightarrow> upd s2 p (next_update (\<lambda>_. next n))
    | None \<Rightarrow> setm s2 this (m2\<lparr>head := next n\<rparr>))"
  define m3 where "m3 = m2\<lparr>head := (if prev n = None then next n else head m)\<rparr>"
  define s4 where "s4 = (case next n of
      Some q \<Rightarrow> upd s3 q (prev_update (\<lambda>_. prev n))
    | None \<Rightarrow> setm s3 this (m3\<lparr>tail := prev n\<rparr>))"
  define m4 where "m4 = m3\<lparr>tail := (if next n = None then prev n else tail m)\<rparr>"
  define s6 where "s6 = setm (del s4 a) this (m4\<lparr>element_count := length (xs @ ys)\<rparr>)"
  have n1: "nodes s1 x = None \<longleftrightarrow> nodes s x = None" for x
    by (simp add: s1_def split: option.splits)
  have n2: "nodes s2 x = None \<longleftrightarrow> nodes s x = None" for x
    by (simp add: s2_def n1 split: option.splits)
  have n3: "nodes s3 x = None \<longleftrightarrow> nodes s x = None" for x
    by (simp add: s3_def n2 split: option.splits)
  have n4: "nodes s4 x = None \<longleftrightarrow> nodes s x = None" for x
    by (simp add: s4_def n3 split: option.splits)
  have a1: "nodes s1 a = Some n"
    using n p_in ne by (auto simp: s1_def split: option.splits)
  have a2: "nodes s2 a = Some n"
    using a1 q_in ne by (auto simp: s2_def split: option.splits)
  have a3: "nodes s3 a = Some n"
    using a2 p'_in ne by (auto simp: s3_def split: option.splits)
  have ms1: "maps s1 this = Some m2"
    using m w(1) by (cases m) (auto simp: s1_def m2_def split: option.splits)
  have ms2: "maps s2 this = Some m2" by (simp add: s2_def ms1 split: option.splits)
  have ms3: "maps s3 this = Some m3"
    using w(1) by (cases m) (auto simp: s3_def m3_def m2_def ms2 split: option.splits)
  have ms4: "maps s4 this = Some m4"
    using w(1) by (cases m) (auto simp: s4_def m4_def m3_def m2_def ms3 split: option.splits)
  have rh: "remove_from_hash s this a = Some s2"
  proof -
    have "(case hash_prev n of
        Some p \<Rightarrow> upd_node s p (\<lambda>x. x\<lparr>hash_next := hash_next n\<rparr>)
      | None \<Rightarrow> do {
          tbl \<leftarrow> hash_table m;
          if ?i < length tbl
          then upd_map s this (\<lambda>m. m\<lparr>hash_table := Some (tbl[?i := hash_next n])\<rparr>)
          else None }) = Some s1"
      using i m w(1) p_in alloc
      by (auto simp: s1_def upd_node_eq upd_map_eq split: option.splits)
    moreover have "(case hash_next n of
        Some q \<Rightarrow> upd_node s1 q (\<lambda>x. x\<lparr>hash_prev := hash_prev n\<rparr>)
      | None \<Rightarrow> Some s1) = Some s2"
      using q_in alloc by (auto simp: s2_def upd_node_eq n1 split: option.splits)
    ultimately show ?thesis
      using m n w(1,7) a1 by (simp add: remove_from_hash_def Let_def)
  qed
  have rl: "remove_from_list s2 this a = Some s4"
  proof -
    have "(case prev n of
        Some p \<Rightarrow> upd_node s2 p (\<lambda>x. x\<lparr>next := next n\<rparr>)
      | None \<Rightarrow> upd_map s2 this (\<lambda>m. m\<lparr>head := next n\<rparr>)) = Some s3"
      using p'_in alloc ms2
      by (auto simp: s3_def upd_node_eq upd_map_eq n2 split: option.splits)
    moreover have "(case next n of
        Some q \<Rightarrow> upd_node s3 q (\<lambda>x. x\<lparr>prev := prev n\<rparr>)
      | None \<Rightarrow> upd_map s3 this (\<lambda>m. m\<lparr>tail := prev n\<rparr>)) = Some s4"
      using q'_in alloc ms3
      by (auto simp: s4_def upd_node_eq upd_map_eq n3 split: option.splits)
    ultimately show ?thesis
      using a2 a3 by (simp add: remove_from_list_def)
  qed
  have cnt: "size_t_dec (element_count m4) = length (xs @ ys)"
    using w(5) by (simp add: m4_def m3_def m2_def size_t_dec_def)
  have er: "erase s this \<lparr>node = Some a, map_ptr = Some this\<rparr> = Some (Inr (), s6)"
    using rh rl n4[of a] n ms4 cnt
    by (simp add: erase_def delete_Node_eq upd_map_eq s6_def)
  have dat: "fld data s6 = (fld data s)(a := None)"
    by (simp add: s6_def s4_def s3_def s2_def s1_def split: option.splits)
  have nx: "fld next s6 = (case prev n of Some p \<Rightarrow> (fld next s)(p := Some (next n), a := None)
      | None \<Rightarrow> (fld next s)(a := None))"
    using p'_in alloc
    by (auto simp: s6_def s4_def s3_def s2_def s1_def n2 split: option.splits)
  have pv: "fld prev s6 = (case next n of Some q \<Rightarrow> (fld prev s)(q := Some (prev n), a := None)
      | None \<Rightarrow> (fld prev s)(a := None))"
    using q'_in alloc
    by (auto simp: s6_def s4_def s3_def s2_def s1_def n3 split: option.splits)
  have hn: "fld hash_next s6 = (case hash_prev n of
        Some p \<Rightarrow> (fld hash_next s)(p := Some (hash_next n), a := None)
      | None \<Rightarrow> (fld hash_next s)(a := None))"
    using p_in alloc
    by (auto simp: s6_def s4_def s3_def s2_def s1_def split: option.splits)
  have hp: "fld hash_prev s6 = (case hash_next n of
        Some q \<Rightarrow> (fld hash_prev s)(q := Some (hash_prev n), a := None)
      | None \<Rightarrow> (fld hash_prev s)(a := None))"
    using q_in alloc
    by (auto simp: s6_def s4_def s3_def s2_def s1_def n1 split: option.splits)
  have wf6: "wf_lhm s6 this (xs @ ys)"
  proof (rule wf_lhm_remove[OF wf m w(1) n refl])
    show "maps s6 this = Some (m\<lparr>head := if xs = [] then hd_opt ys else head m,
        tail := if ys = [] then last_opt xs else tail m,
        hash_table := Some (if hash_prev n = None then tbl[?i := hash_next n] else tbl),
        element_count := length (xs @ ys)\<rparr>)"
      using pp nn by (cases xs rule: rev_cases; cases ys)
        (simp_all add: s6_def m4_def m3_def m2_def)
    show "fld data s6 x = fld data s x" if "x \<in> set (xs @ ys)" for x
      using ne[OF that] by (simp add: dat)
    show "fld next s6 (last xs) = Some (hd_opt ys)" if "xs \<noteq> []"
      using that pp nn ne[of "last xs"] by (auto simp: nx last_opt_def)
    show "fld next s6 x = fld next s x" if "x \<in> set (butlast xs) \<union> set ys" for x
    proof -
      have "x \<in> set (xs @ ys)" using that by (auto dest: in_set_butlastD)
      moreover have "x \<noteq> last xs" if "xs \<noteq> []"
        using \<open>x \<in> set (butlast xs) \<union> set ys\<close> w(2) that
        by (cases xs rule: rev_cases) auto
      ultimately show ?thesis using pp ne[of x]
        by (cases xs rule: rev_cases) (auto simp: nx)
    qed
    show "fld prev s6 (hd ys) = Some (last_opt xs)" if "ys \<noteq> []"
      using that pp nn ne[of "hd ys"] by (cases ys) (auto simp: pv)
    show "fld prev s6 x = fld prev s x" if "x \<in> set xs \<union> set (tl ys)" for x
    proof -
      have "x \<in> set (xs @ ys)" using that by (cases ys) auto
      moreover have "x \<noteq> hd ys" if "ys \<noteq> []"
        using \<open>x \<in> set xs \<union> set (tl ys)\<close> w(2) that by (cases ys) auto
      ultimately show ?thesis using nn ne[of x] by (cases ys) (auto simp: pv)
    qed
    show "fld hash_next s6 p = Some (hash_next n)" if "hash_prev n = Some p" for p
      using that p_in[OF that] ne[of p] by (simp add: hn)
    show "fld hash_next s6 x = fld hash_next s x"
      if "x \<in> set (xs @ ys)" "hash_prev n \<noteq> Some x" for x
      using that ne[of x] by (auto simp: hn split: option.splits)
    show "fld hash_prev s6 q = Some (hash_prev n)" if "hash_next n = Some q" for q
      using that q_in[OF that] ne[of q] by (simp add: hp)
    show "fld hash_prev s6 x = fld hash_prev s x"
      if "x \<in> set (xs @ ys)" "hash_next n \<noteq> Some x" for x
      using that ne[of x] by (auto simp: hp split: option.splits)
  qed
  have "entries s6 (xs @ ys) = entries s (xs @ ys)"
    using ne by (intro entries_cong) (simp add: dat)
  then have en: "entries s6 (xs @ ys) = entries s xs @ entries s ys"
    by (simp add: entries_def)
  have "next_node s6 = next_node s"
    by (simp add: s6_def s4_def s3_def s2_def s1_def split: option.splits)
  moreover have "nodes s6 a = None" by (simp add: s6_def)
  moreover have "table_size m' = table_size m" if "maps s6 this = Some m'" for m'
    using that by (auto simp: s6_def m4_def m3_def m2_def)
  moreover have "maps s6 t = maps s t" if "t \<noteq> this" for t
    using that by (simp add: s6_def s4_def s3_def s2_def s1_def split: option.splits)
  moreover have "nodes s6 x = nodes s x" if "x \<notin> set (xs @ a # ys)" for x
  proof -
    have "x \<noteq> p" if "p \<in> set (xs @ ys)" for p using that \<open>x \<notin> _\<close> by auto
    then show ?thesis using that p_in q_in p'_in q'_in
      by (auto simp: s6_def s4_def s3_def s2_def s1_def split: option.splits)
  qed
  moreover have "nodes s6 x = None" if "nodes s x = None" for x
    using that n4[of x] by (cases "x = a") (simp_all add: s6_def)
  ultimately show ?case using er wf6 en m by auto
qed

section \<open>Framing: a container only depends on its own object and nodes\<close>

lemma wf_lhm_frame:
  assumes wf: "wf_lhm s t bs" and mp: "maps s' t = maps s t"
    and nd: "\<And>x. x \<in> set bs \<Longrightarrow> nodes s' x = nodes s x"
  shows "wf_lhm s' t bs"
proof (rule wf_lhmD[OF wf], goal_cases)
  case (1 m tbl)
  have f: "fld next s' x = fld next s x" "fld prev s' x = fld prev s x"
    "fld hash_next s' x = fld hash_next s x" "fld hash_prev s' x = fld hash_prev s x"
    "fld data s' x = fld data s x" if "x \<in> set bs" for x
    using nd[OF that] by (simp_all add: fld_def)
  have "seg (fld next s') (head m) bs None = seg (fld next s) (head m) bs None"
    by (rule seg_frame) (rule f(1))
  then have "seg (fld next s') (head m) bs None" using 1(4) by simp
  moreover have "seg (fld prev s') (tail m) (rev bs) None = seg (fld prev s) (tail m) (rev bs) None"
    by (rule seg_frame) (simp add: f)
  then have "seg (fld prev s') (tail m) (rev bs) None" using 1(5) by simp
  moreover have "map (key_at s') bs = map (key_at s) bs"
    by (simp add: key_at_def f)
  then have "distinct (map (key_at s') bs)" using 1(12) by (simp only:)
  moreover have "buckets_ok (hash_func m) (table_size m) (fld data s') (fld hash_next s')
      (fld hash_prev s') tbl bs"
    using 1(13) f(5,3,4) by (rule buckets_ok_frame)
  ultimately show ?case using 1 mp by (simp add: wf_lhm_def)
qed

lemma entries_frame:
  "(\<And>x. x \<in> set bs \<Longrightarrow> nodes s' x = nodes s x) \<Longrightarrow> entries s' bs = entries s bs"
  by (simp add: entries_def fld_def)

section \<open>Clearing\<close>

lemma clear_loop_correct:
  assumes "seg (fld next s) c as None" and "distinct as"
  shows "\<exists>s'. clear_loop s c = Some s' \<and> maps s' = maps s \<and> next_node s' = next_node s \<and>
      (\<forall>x. nodes s' x = (if x \<in> set as then None else nodes s x))"
  using assms
proof (induction as arbitrary: s c)
  case Nil
  then show ?case by (subst clear_loop.simps) simp
next
  case (Cons a as)
  from Cons.prems(1) obtain n where n: "c = Some a" "nodes s a = Some n"
    "seg (fld next s) (next n) as None"
    unfolding seg_fld_Cons by blast
  have "seg (fld next (del s a)) (next n) as None = seg (fld next s) (next n) as None"
    using Cons.prems(2) by (intro seg_frame) auto
  then have "seg (fld next (del s a)) (next n) as None" using n(3) by simp
  from Cons.IH[OF this] Cons.prems(2) obtain s' where
    s': "clear_loop (del s a) (next n) = Some s'" "maps s' = maps s" "next_node s' = next_node s"
      "\<forall>x. nodes s' x = (if x \<in> set as then None else nodes (del s a) x)"
    by auto
  have "clear_loop s c = Some s'"
    using n s'(1) by (subst clear_loop.simps) (simp add: delete_Node_eq)
  moreover have "nodes s' x = (if x \<in> set (a # as) then None else nodes s x)" for x
    using s'(4) by (cases "x = a") simp_all
  ultimately show ?case using s'(2,3) by blast
qed

lemma clear_wf:
  assumes wf: "wf_lhm s this as" and m: "maps s this = Some m"
  shows "\<exists>s'. clear s this = Some s' \<and> wf_lhm s' this [] \<and>
      maps s' this = Some (m\<lparr>head := None, tail := None, element_count := 0,
        hash_table := Some (replicate (table_size m) None)\<rparr>) \<and>
      next_node s' = next_node s \<and>
      (\<forall>t. t \<noteq> this \<longrightarrow> maps s' t = maps s t) \<and>
      (\<forall>x. nodes s' x = (if x \<in> set as then None else nodes s x))"
proof (rule wf_lhmD[OF wf], goal_cases)
  case (1 m0 tbl)
  have eq: "m0 = m" using 1(1) m by simp
  note w = 1(2-13)[unfolded eq]
  from clear_loop_correct[OF w(3,2)] obtain s1 where
    s1: "clear_loop s (head m) = Some s1" "maps s1 = maps s" "next_node s1 = next_node s"
      "\<forall>x. nodes s1 x = (if x \<in> set as then None else nodes s x)"
    by blast
  let ?m2 = "m\<lparr>head := None, tail := None, element_count := 0\<rparr>"
  let ?m3 = "m\<lparr>head := None, tail := None, element_count := 0,
        hash_table := Some (replicate (table_size m) None)\<rparr>"
  let ?s = "setm (setm s1 this ?m2) this ?m3"
  have cl: "clear s this = Some ?s"
    using m s1(1,2) w(1,6,7) by (simp add: clear_def upd_map_eq)
  have "wf_lhm ?s this []"
    using w by (simp add: wf_lhm_def buckets_ok_empty)
  then show ?case using cl s1 by (intro exI[of _ ?s]) simp
qed

lemma clear_table_buckets_None:
  "\<forall>b\<in>set bs. b = None \<Longrightarrow> clear_table_buckets s bs = Some s"
  by (induction bs) (simp_all add: clear_table_chain.simps)

lemma clear_table_empty:
  assumes wf: "wf_lhm s this []" and m: "maps s this = Some m"
  shows "clear_table s this = Some (setm s this (m\<lparr>hash_table := None\<rparr>))"
proof (rule wf_lhmD[OF wf], goal_cases)
  case (1 m0 tbl)
  have eq: "m0 = m" using 1(1) m by simp
  note w = 1(2-13)[unfolded eq]
  have "tbl ! i = None" if "i < table_size m" for i
    using buckets_okD(1)[OF w(12) that] by (simp add: chain_def)
  then have "\<forall>b\<in>set (take (table_size m) tbl). b = None"
    using w(6) by (auto simp: in_set_conv_nth)
  then have "clear_table_buckets s (take (table_size m) tbl) = Some s"
    by (rule clear_table_buckets_None)
  then show ?case using m w(1,6) by (simp add: clear_table_def upd_map_eq)
qed

section \<open>Copying\<close>

lemma wf_lhm_load:
  "wf_lhm s this as \<Longrightarrow> maps s this = Some m \<Longrightarrow> 4 * length as \<le> 3 * table_size m"
  by (erule wf_lhmD) simp

lemma copy_loop_correct:
  assumes "seg (fld next s) c bs None"
    and "wf_lhm s other (pre @ bs)" and "wf_lhm s this as" and "alloc_ok s"
    and "this \<noteq> other" and "set as \<inter> set (pre @ bs) = {}"
    and "entries s as = entries s pre"
    and "maps s this = Some m" and "maps s other = Some mo" and "table_size m = table_size mo"
  shows "\<exists>s' as'. copy_loop s this c = Some s' \<and> wf_lhm s' this as' \<and>
      wf_lhm s' other (pre @ bs) \<and> alloc_ok s' \<and> set as' \<inter> set (pre @ bs) = {} \<and>
      entries s' as' = entries s (pre @ bs) \<and>
      (\<forall>x\<in>set (pre @ bs). nodes s' x = nodes s x) \<and>
      (\<forall>m'. maps s' this = Some m' \<longrightarrow> table_size m' = table_size m) \<and>
      (\<forall>t. t \<noteq> this \<longrightarrow> maps s' t = maps s t) \<and>
      (\<forall>x. x \<notin> set as \<and> x < next_node s \<longrightarrow> nodes s' x = nodes s x) \<and>
      next_node s \<le> next_node s'"
  using assms
proof (induction bs arbitrary: s c pre as m)
  case Nil
  then show ?case by (subst copy_loop.simps) auto
next
  case (Cons b bs)
  from Cons.prems(1) obtain nb where nb: "c = Some b" "nodes s b = Some nb"
    "seg (fld next s) (next nb) bs None"
    unfolding seg_fld_Cons by blast
  let ?a = "next_node s"
  have db: "entries s (pre @ b # bs) = entries s pre @ data nb # entries s bs"
    using nb(2) by (simp add: entries_def fld_def)
  have "distinct (map fst (entries s (pre @ b # bs)))"
    using Cons.prems(2) by (rule distinct_keys_entries)
  then have absent: "fst (data nb) \<notin> fst ` set (entries s as)"
    unfolding db Cons.prems(7) by auto
  have "4 * length (pre @ b # bs) \<le> 3 * table_size mo"
    using Cons.prems(2,9) by (rule wf_lhm_load)
  moreover have "length as = length pre"
    using arg_cong[OF Cons.prems(7), of length] by (simp add: entries_def)
  ultimately have norehash: "\<not> 3 * table_size m \<le> 4 * length as"
    using Cons.prems(10) by simp
  from insert_new[OF Cons.prems(3,4) absent Cons.prems(8), of "snd (data nb)"] norehash
  obtain s1 where s1: "insert_lhm s this (data nb) =
        Some (s1, \<lparr>node = Some ?a, map_ptr = Some this\<rparr>, True)"
    "wf_lhm s1 this (as @ [?a])" "alloc_ok s1" "next_node s1 = Suc ?a"
    "entries s1 (as @ [?a]) = entries s as @ [data nb]"
    "\<forall>m'. maps s1 this = Some m' \<longrightarrow> table_size m' = table_size m"
    "\<forall>t. t \<noteq> this \<longrightarrow> maps s1 t = maps s t"
    "\<forall>x. x \<notin> set as \<and> x \<noteq> ?a \<longrightarrow> nodes s1 x = nodes s x"
    by auto
  have old: "x < ?a" if "x \<in> set (pre @ b # bs)" for x
    using wf_lhm_fresh[OF Cons.prems(2,4) that] .
  have same: "nodes s1 x = nodes s x" if "x \<in> set (pre @ b # bs)" for x
    using that old[OF that] Cons.prems(6) s1(8) by auto
  have wfo: "wf_lhm s1 other (pre @ b # bs)"
  proof (rule wf_lhm_frame[OF Cons.prems(2)])
    show "maps s1 other = maps s other" using s1(7) Cons.prems(5) by simp
    show "nodes s1 x = nodes s x" if "x \<in> set (pre @ b # bs)" for x
      using that by (rule same)
  qed
  obtain m1 where m1: "maps s1 this = Some m1" using s1(2) by (rule wf_lhmD)
  have "seg (fld next s1) (next nb) bs None = seg (fld next s) (next nb) bs None"
    using same by (intro seg_frame) (simp add: fld_def)
  then have sg: "seg (fld next s1) (next nb) bs None" using nb(3) by simp
  have en1: "entries s1 (pre @ b # bs) = entries s (pre @ b # bs)"
    using same by (rule entries_frame)
  have "\<exists>s' as'. copy_loop s1 this (next nb) = Some s' \<and> wf_lhm s' this as' \<and>
      wf_lhm s' other ((pre @ [b]) @ bs) \<and> alloc_ok s' \<and>
      set as' \<inter> set ((pre @ [b]) @ bs) = {} \<and>
      entries s' as' = entries s1 ((pre @ [b]) @ bs) \<and>
      (\<forall>x\<in>set ((pre @ [b]) @ bs). nodes s' x = nodes s1 x) \<and>
      (\<forall>m'. maps s' this = Some m' \<longrightarrow> table_size m' = table_size m1) \<and>
      (\<forall>t. t \<noteq> this \<longrightarrow> maps s' t = maps s1 t) \<and>
      (\<forall>x. x \<notin> set (as @ [?a]) \<and> x < next_node s1 \<longrightarrow> nodes s' x = nodes s1 x) \<and>
      next_node s1 \<le> next_node s'"
  proof (rule Cons.IH[OF sg _ s1(2,3) Cons.prems(5) _ _ m1])
    show "wf_lhm s1 other ((pre @ [b]) @ bs)" using wfo by simp
    show "set (as @ [?a]) \<inter> set ((pre @ [b]) @ bs) = {}"
      using Cons.prems(6) old by fastforce
    have "entries s1 (pre @ [b]) = entries s (pre @ [b])"
      by (rule entries_frame) (rule same, auto)
    also have "\<dots> = entries s pre @ [data nb]"
      using nb(2) by (simp add: entries_def fld_def)
    finally show "entries s1 (as @ [?a]) = entries s1 (pre @ [b])"
      using s1(5) Cons.prems(7) by simp
    show "maps s1 other = Some mo" using s1(7) Cons.prems(5,9) by simp
    show "table_size m1 = table_size mo" using s1(6) m1 Cons.prems(10) by simp
  qed
  then obtain s' as' where r: "copy_loop s1 this (next nb) = Some s'" "wf_lhm s' this as'"
      "wf_lhm s' other (pre @ b # bs)" "alloc_ok s'"
      "set as' \<inter> set (pre @ b # bs) = {}"
      "entries s' as' = entries s1 (pre @ b # bs)"
      "\<forall>x\<in>set (pre @ b # bs). nodes s' x = nodes s1 x"
      "\<forall>m'. maps s' this = Some m' \<longrightarrow> table_size m' = table_size m1"
      "\<forall>t. t \<noteq> this \<longrightarrow> maps s' t = maps s1 t"
      "\<forall>x. x \<notin> set (as @ [?a]) \<and> x < next_node s1 \<longrightarrow> nodes s' x = nodes s1 x"
      "next_node s1 \<le> next_node s'"
    by auto
  have nb1: "nodes s1 b = Some nb" using same[of b] nb(2) by simp
  have cl: "copy_loop s this c = Some s'"
    using nb(1,2) s1(1) nb1 r(1) by (subst copy_loop.simps) simp
  have fr: "nodes s' x = nodes s x" if "x \<notin> set as" "x < ?a" for x
  proof -
    have "nodes s' x = nodes s1 x" using that r(10) s1(4) by simp
    moreover have "nodes s1 x = nodes s x" using that s1(8) by simp
    ultimately show ?thesis by simp
  qed
  have "entries s' as' = entries s (pre @ b # bs)" using r(6) en1 by simp
  moreover have "\<forall>x\<in>set (pre @ b # bs). nodes s' x = nodes s x"
    using r(7) same by simp
  moreover have "\<forall>m'. maps s' this = Some m' \<longrightarrow> table_size m' = table_size m"
    using r(8) s1(6) m1 by simp
  moreover have "\<forall>t. t \<noteq> this \<longrightarrow> maps s' t = maps s t"
    using r(9) s1(7) by simp
  moreover have "next_node s \<le> next_node s'" using r(11) s1(4) by simp
  ultimately show ?case
    using cl r(2,3,4,5) fr by blast
qed

lemma wf_lhm_fresh_object:
  assumes "0 < ts" and "4 dvd ts"
    and "maps s this = Some \<lparr>head = None, tail = None, hash_table = Some (replicate ts None),
        table_size = ts, element_count = 0, hash_func = hf, equal_func = (=)\<rparr>"
  shows "wf_lhm s this []"
  using assms by (simp add: wf_lhm_def buckets_ok_empty)

lemma copy_into_fresh:
  assumes wfo: "wf_lhm s other bs" and al: "alloc_ok s" and ne: "this \<noteq> other"
    and mo: "maps s other = Some mo"
    and m: "maps s this = Some \<lparr>head = None, tail = None,
        hash_table = Some (replicate (table_size mo) None),
        table_size = table_size mo, element_count = 0, hash_func = hash_func mo,
        equal_func = equal_func mo\<rparr>"
  shows "\<exists>s' as'. copy_loop s this (head mo) = Some s' \<and> wf_lhm s' this as' \<and>
      wf_lhm s' other bs \<and> alloc_ok s' \<and> set as' \<inter> set bs = {} \<and>
      entries s' as' = entries s bs \<and>
      (\<forall>x\<in>set bs. nodes s' x = nodes s x) \<and>
      (\<forall>m'. maps s' this = Some m' \<longrightarrow> table_size m' = table_size mo) \<and>
      (\<forall>t. t \<noteq> this \<longrightarrow> maps s' t = maps s t) \<and>
      (\<forall>x. x < next_node s \<longrightarrow> nodes s' x = nodes s x) \<and>
      next_node s \<le> next_node s'"
proof -
  have o: "0 < table_size mo" "4 dvd table_size mo" "equal_func mo = (=)"
    "seg (fld next s) (head mo) bs None"
    using wfo mo by (auto elim!: wf_lhmD)
  have wft: "wf_lhm s this []"
    using o(1,2) m unfolding o(3) by (rule wf_lhm_fresh_object)
  from copy_loop_correct[of s "head mo" bs other "[]" this "[]", OF _ _ wft al ne _ _ m mo]
    o(4) wfo
  show ?thesis by simp
qed

lemma copy_ctor_correct:
  assumes wfo: "wf_lhm s other bs" and al: "alloc_ok s" and ne: "this \<noteq> other"
    and mo: "maps s other = Some mo"
  shows "\<exists>s' as'. linked_hashmap_copy_ctor Hash Equal s this other = Some s' \<and>
      wf_lhm s' this as' \<and> wf_lhm s' other bs \<and> alloc_ok s' \<and> set as' \<inter> set bs = {} \<and>
      entries s' as' = entries s bs \<and> entries s' bs = entries s bs \<and>
      (\<forall>m'. maps s' this = Some m' \<longrightarrow> table_size m' = table_size mo) \<and>
      (\<forall>t. t \<noteq> this \<longrightarrow> maps s' t = maps s t) \<and>
      (\<forall>x. x < next_node s \<longrightarrow> nodes s' x = nodes s x)"
proof -
  let ?m3 = "\<lparr>head = None, tail = None, hash_table = Some (replicate (table_size mo) None),
      table_size = table_size mo, element_count = 0, hash_func = hash_func mo,
      equal_func = equal_func mo\<rparr>"
  let ?s3 = "s\<lparr>maps := (maps s)(this \<mapsto> ?m3)\<rparr>"
  have unf: "linked_hashmap_copy_ctor Hash Equal s this other = copy_loop ?s3 this (head mo)"
    using mo ne by (simp add: linked_hashmap_copy_ctor_def initialize_table_def upd_map_def Let_def)
  have wfo3: "wf_lhm ?s3 other bs"
    using ne by (intro wf_lhm_frame[OF wfo]) simp_all
  have al3: "alloc_ok ?s3" using al by (simp add: alloc_ok_def)
  have mo3: "maps ?s3 other = Some mo" using mo ne by simp
  have m3: "maps ?s3 this = Some ?m3" by simp
  from copy_into_fresh[OF wfo3 al3 ne mo3 m3]
  obtain s' as' where r: "copy_loop ?s3 this (head mo) = Some s'" "wf_lhm s' this as'"
      "wf_lhm s' other bs" "alloc_ok s'" "set as' \<inter> set bs = {}"
      "entries s' as' = entries ?s3 bs"
      "\<forall>x\<in>set bs. nodes s' x = nodes ?s3 x"
      "\<forall>m'. maps s' this = Some m' \<longrightarrow> table_size m' = table_size mo"
      "\<forall>t. t \<noteq> this \<longrightarrow> maps s' t = maps ?s3 t"
      "\<forall>x. x < next_node ?s3 \<longrightarrow> nodes s' x = nodes ?s3 x"
    by blast
  have e3: "entries ?s3 bs = entries s bs" by (rule entries_frame) simp
  have "entries s' bs = entries ?s3 bs" using r(7) by (intro entries_frame) simp
  then have "entries s' bs = entries s bs" using e3 by simp
  moreover have "entries s' as' = entries s bs" using r(6) e3 by simp
  moreover have "\<forall>t. t \<noteq> this \<longrightarrow> maps s' t = maps s t" using r(9) by simp
  moreover have "\<forall>x. x < next_node s \<longrightarrow> nodes s' x = nodes s x" using r(10) by simp
  ultimately show ?thesis using unf r(1-5,8) by (intro exI[of _ s'] exI[of _ as']) simp
qed

lemma operator_assign_correct:
  assumes wft: "wf_lhm s this as" and wfo: "wf_lhm s other bs" and al: "alloc_ok s"
    and ne: "this \<noteq> other" and dj: "set as \<inter> set bs = {}"
    and mo: "maps s other = Some mo"
  shows "\<exists>s' as'. operator_assign s this other = Some s' \<and>
      wf_lhm s' this as' \<and> wf_lhm s' other bs \<and> alloc_ok s' \<and> set as' \<inter> set bs = {} \<and>
      entries s' as' = entries s bs \<and> entries s' bs = entries s bs \<and>
      (\<forall>m'. maps s' this = Some m' \<longrightarrow> table_size m' = table_size mo) \<and>
      (\<forall>t. t \<noteq> this \<longrightarrow> maps s' t = maps s t) \<and>
      (\<forall>x. x \<notin> set as \<and> x < next_node s \<longrightarrow> nodes s' x = nodes s x)"
proof -
  obtain m where m: "maps s this = Some m" using wft by (rule wf_lhmD)
  from clear_wf[OF wft m] obtain sa where sa: "clear s this = Some sa" "wf_lhm sa this []"
    "maps sa this = Some (m\<lparr>head := None, tail := None, element_count := 0,
        hash_table := Some (replicate (table_size m) None)\<rparr>)"
    "next_node sa = next_node s" "\<forall>t. t \<noteq> this \<longrightarrow> maps sa t = maps s t"
    "\<forall>x. nodes sa x = (if x \<in> set as then None else nodes s x)"
    by blast
  let ?ma = "m\<lparr>head := None, tail := None, element_count := 0,
        hash_table := Some (replicate (table_size m) None)\<rparr>"
  let ?s0 = "setm sa this (?ma\<lparr>hash_table := None\<rparr>)"
  have ct: "clear_table sa this = Some ?s0" using sa(2,3) by (rule clear_table_empty)
  let ?m3 = "\<lparr>head = None, tail = None, hash_table = Some (replicate (table_size mo) None),
      table_size = table_size mo, element_count = 0, hash_func = hash_func mo,
      equal_func = equal_func mo\<rparr>"
  let ?s3 = "setm sa this ?m3"
  have moa: "maps sa other = Some mo" using sa(5) ne mo by simp
  have unf: "operator_assign s this other = copy_loop ?s3 this (head mo)"
    using ne sa(1) ct moa
    by (cases m) (simp add: operator_assign_def initialize_table_def upd_map_def setm_def)
  have wfo3: "wf_lhm ?s3 other bs"
  proof (rule wf_lhm_frame[OF wfo])
    show "maps ?s3 other = maps s other" using sa(5) ne by simp
    show "nodes ?s3 x = nodes s x" if "x \<in> set bs" for x using that sa(6) dj by auto
  qed
  have al3: "alloc_ok ?s3" using al sa(4,6) by (simp add: alloc_ok_def)
  have mo3: "maps ?s3 other = Some mo" using moa ne by simp
  have m3: "maps ?s3 this = Some ?m3" by simp
  from copy_into_fresh[OF wfo3 al3 ne mo3 m3]
  obtain s' as' where r: "copy_loop ?s3 this (head mo) = Some s'" "wf_lhm s' this as'"
      "wf_lhm s' other bs" "alloc_ok s'" "set as' \<inter> set bs = {}"
      "entries s' as' = entries ?s3 bs"
      "\<forall>x\<in>set bs. nodes s' x = nodes ?s3 x"
      "\<forall>m'. maps s' this = Some m' \<longrightarrow> table_size m' = table_size mo"
      "\<forall>t. t \<noteq> this \<longrightarrow> maps s' t = maps ?s3 t"
      "\<forall>x. x < next_node ?s3 \<longrightarrow> nodes s' x = nodes ?s3 x"
    by blast
  have same: "nodes ?s3 x = nodes s x" if "x \<in> set bs" for x using that sa(6) dj by auto
  have e3: "entries ?s3 bs = entries s bs" by (rule entries_frame) (rule same)
  have "entries s' bs = entries ?s3 bs" using r(7) by (intro entries_frame) simp
  then have "entries s' bs = entries s bs" using e3 by simp
  moreover have "entries s' as' = entries s bs" using r(6) e3 by simp
  moreover have "\<forall>t. t \<noteq> this \<longrightarrow> maps s' t = maps s t" using r(9) sa(5) by simp
  moreover have "\<forall>x. x \<notin> set as \<and> x < next_node s \<longrightarrow> nodes s' x = nodes s x"
    using r(10) sa(4,6) by simp
  ultimately show ?thesis using unf r(1-5,8) by (intro exI[of _ s'] exI[of _ as']) simp
qed

section \<open>The claims about iterators\<close>

lemma wf_lhm_last:
  assumes "wf_lhm s this as" and "as \<noteq> []" and "maps s this = Some m"
  shows "tail m = Some (last as)"
  using wf_lhm_tail[OF assms(1,3)] assms(2) by (simp add: last_opt_def)

text \<open>Claim C8, as the code has it. Stepping backward from the past-the-end iterator of
  a non-empty container yields the iterator at the last entry in insertion order.
  Stepping forward from an iterator whose \<^verbatim>\<open>node\<close> is null, and stepping in either
  direction from an iterator without owning container, throws \<^verbatim>\<open>invalid_iterator\<close>.
  Dereferencing a null iterator with \<^verbatim>\<open>operator*\<close> throws \<^verbatim>\<open>invalid_iterator\<close>;
  \<^verbatim>\<open>operator->\<close> throws nothing and returns a null pointer.\<close>

theorem iterator_stepping_and_dereference:
  "(wf_lhm s this as \<and> as \<noteq> [] \<longrightarrow>
      iterator_pre_dec s (end_lhm this) = Some (Inr \<lparr>node = Some (last as), map_ptr = Some this\<rparr>) \<and>
      iterator_post_dec s (end_lhm this) =
        Some (Inr (\<lparr>node = Some (last as), map_ptr = Some this\<rparr>, end_lhm this)) \<and>
      iterator_deref s \<lparr>node = Some (last as), map_ptr = Some this\<rparr> =
        Some (Inr (last (entries s as)))) \<and>
   (node it = None \<longrightarrow>
      iterator_pre_inc s it = Some (Inl invalid_iterator) \<and>
      iterator_post_inc s it = Some (Inl invalid_iterator) \<and>
      iterator_deref s it = Some (Inl invalid_iterator) \<and>
      iterator_arrow it = Inr None) \<and>
   (map_ptr it = None \<longrightarrow>
      iterator_pre_inc s it = Some (Inl invalid_iterator) \<and>
      iterator_post_inc s it = Some (Inl invalid_iterator) \<and>
      iterator_pre_dec s it = Some (Inl invalid_iterator) \<and>
      iterator_post_dec s it = Some (Inl invalid_iterator))"
proof (intro conjI impI)
  assume a: "wf_lhm s this as \<and> as \<noteq> []"
  then obtain m where m: "maps s this = Some m" by (auto elim: wf_lhmD)
  have tl: "tail m = Some (last as)" using a m wf_lhm_last by blast
  show "iterator_pre_dec s (end_lhm this) = Some (Inr \<lparr>node = Some (last as), map_ptr = Some this\<rparr>)"
    using m tl by (simp add: iterator_pre_dec_def end_lhm_def)
  show "iterator_post_dec s (end_lhm this) =
        Some (Inr (\<lparr>node = Some (last as), map_ptr = Some this\<rparr>, end_lhm this))"
    using m tl by (simp add: iterator_post_dec_def end_lhm_def)
  from a wf_lhm_nodes[of s this as "last as"] obtain n where n: "nodes s (last as) = Some n"
    by auto
  have "last (entries s as) = data n"
    using a n by (simp add: entries_def last_map fld_def)
  then show "iterator_deref s \<lparr>node = Some (last as), map_ptr = Some this\<rparr> =
        Some (Inr (last (entries s as)))"
    using n by (simp add: iterator_deref_def)
qed (auto simp: iterator_pre_inc_def iterator_post_inc_def iterator_pre_dec_def
    iterator_post_dec_def iterator_deref_def iterator_arrow_def split: option.splits)

theorem iterator_stepping_and_dereference_witness:
  "\<exists>s1 s2. linked_hashmap_ctor (\<lambda>k. k) (=) empty_store 0 = Some s1 \<and>
     insert_lhm s1 0 (1, 10) = Some (s2, \<lparr>node = Some 0, map_ptr = Some 0\<rparr>, True) \<and>
     iterator_pre_dec s2 (end_lhm 0) = Some (Inr \<lparr>node = Some 0, map_ptr = Some 0\<rparr>) \<and>
     iterator_deref s2 \<lparr>node = Some 0, map_ptr = Some 0\<rparr> = Some (Inr (1, 10)) \<and>
     node (end_lhm 0) = None \<and> iterator_pre_inc s2 (end_lhm 0) = Some (Inl invalid_iterator) \<and>
     iterator_deref s2 (end_lhm 0) = Some (Inl invalid_iterator) \<and>
     map_ptr \<lparr>node = None, map_ptr = None\<rparr> = None \<and>
     iterator_pre_dec s2 \<lparr>node = None, map_ptr = None\<rparr> = Some (Inl invalid_iterator)"
proof -
  from example_one_entry obtain s1 s2 where
    ex: "linked_hashmap_ctor (\<lambda>k. k) (=) empty_store 0 = Some s1"
      "insert_lhm s1 0 (1, 10) = Some (s2, \<lparr>node = Some 0, map_ptr = Some 0\<rparr>, True)"
      "wf_lhm s2 0 [0]" "entries s2 [0] = [(1, 10)]"
    by blast
  have "node (end_lhm 0) = None" by (simp add: end_lhm_def)
  with ex iterator_stepping_and_dereference[of s2 0 "[0]" "end_lhm 0"]
    iterator_stepping_and_dereference[of s2 0 "[0]" "\<lparr>node = None, map_ptr = None\<rparr>"]
  show ?thesis by (intro exI[of _ s1] exI[of _ s2]) simp
qed

text \<open>Claim C8 as stated fails for \<^verbatim>\<open>operator->\<close>: on the past-the-end iterator it does
  not throw \<^verbatim>\<open>invalid_iterator\<close> but returns a null pointer.\<close>

theorem arrow_on_end_counterexample:
  "iterator_arrow (end_lhm 0) \<noteq> Inl invalid_iterator \<and> iterator_arrow (end_lhm 0) = Inr None"
  by (simp add: iterator_arrow_def end_lhm_def)

section \<open>Re-insertion of a present key\<close>



section \<open>Erasure\<close>

lemma one_entry_store_wf:
  "wf_lhm one_entry_store 0 [0]" "alloc_ok one_entry_store" "entries one_entry_store [0] = [(1, 10)]"
  using example_one_entry by (auto simp: one_entry_store_def)

lemma count_wf:
  assumes "wf_lhm s this as"
  shows "count s this k = Some (if k \<in> fst ` set (entries s as) then 1 else 0)"
proof (cases "k \<in> fst ` set (entries s as)")
  case True
  from key_present[OF assms True] obtain a where "a \<in> set as" "key_at s a = Some k" by blast
  then have "find_node s this k = Some (Some a)" using assms by (intro find_node_present)
  then show ?thesis using True by (simp add: count_def)
next
  case False
  have "find_node s this k = Some None"
    using assms key_absent[OF assms False] by (rule find_node_absent)
  then show ?thesis using False by (simp add: count_def)
qed

lemma size_wf: "wf_lhm s this as \<Longrightarrow> size_lhm s this = Some (length as)"
  by (erule wf_lhmD) (simp add: size_lhm_def)

lemma three_entry_store_wf:
  "wf_lhm three_entry_store 0 [0, 1, 2]"
  "entries three_entry_store [0, 1, 2] = [(7, 70), (23, 230), (39, 390)]"
proof -
  obtain s0 where s0: "linked_hashmap_ctor (\<lambda>k. k) (=) empty_store 0 = Some s0"
    "wf_lhm s0 0 []" "nodes s0 = nodes empty_store" "next_node s0 = next_node empty_store"
    using linked_hashmap_ctor_wf[of "\<lambda>k. k" empty_store 0] by blast
  have al0: "alloc_ok s0" using s0(3,4) alloc_ok_empty_store by (simp add: alloc_ok_def)
  have n0: "next_node s0 = 0" using s0(4) by (simp add: empty_store_def)
  obtain m0 where m0: "maps s0 0 = Some m0" using s0(2) by (rule wf_lhmD)
  have "(7::nat) \<notin> fst ` set (entries s0 [])" by (simp add: entries_def)
  from insert_new[OF s0(2) al0 this m0, of 70] obtain s1 where
    s1: "insert_lhm s0 0 (7, 70) = Some (s1, \<lparr>node = Some 0, map_ptr = Some 0\<rparr>, True)"
      "wf_lhm s1 0 [0]" "alloc_ok s1" "next_node s1 = 1" "entries s1 [0] = [(7, 70)]"
    using n0 by (auto simp: entries_def)
  obtain m1 where m1: "maps s1 0 = Some m1" using s1(2) by (rule wf_lhmD)
  have "(23::nat) \<notin> fst ` set (entries s1 [0])" using s1(5) by simp
  from insert_new[OF s1(2,3) this m1, of 230] obtain s2 where
    s2: "insert_lhm s1 0 (23, 230) = Some (s2, \<lparr>node = Some 1, map_ptr = Some 0\<rparr>, True)"
      "wf_lhm s2 0 [0, 1]" "alloc_ok s2" "next_node s2 = 2"
      "entries s2 [0, 1] = [(7, 70), (23, 230)]"
    using s1(4,5) by auto
  obtain m2 where m2: "maps s2 0 = Some m2" using s2(2) by (rule wf_lhmD)
  have "(39::nat) \<notin> fst ` set (entries s2 [0, 1])" using s2(5) by simp
  from insert_new[OF s2(2,3) this m2, of 390] obtain s3 where
    s3: "insert_lhm s2 0 (39, 390) = Some (s3, \<lparr>node = Some 2, map_ptr = Some 0\<rparr>, True)"
      "wf_lhm s3 0 [0, 1, 2]"
      "entries s3 [0, 1, 2] = [(7, 70), (23, 230), (39, 390)]"
    using s2(4,5) by auto
  have eq: "three_entry_store = s3"
    using s0(1) s1(1) s2(1) s3(1) by (simp add: three_entry_store_def)
  show "wf_lhm three_entry_store 0 [0, 1, 2]"
    "entries three_entry_store [0, 1, 2] = [(7, 70), (23, 230), (39, 390)]"
    using s3(2,3) unfolding eq by simp_all
qed

text \<open>Claim C5. Erasing through a valid iterator, one that references an entry of this
  container, with key \<open>k\<close>, returns normally; afterwards \<^verbatim>\<open>count(k)\<close> is 0, \<^verbatim>\<open>size()\<close>
  is one less, and the iteration is the former one without that entry: the other
  entries keep their values and their relative order.\<close>

theorem erase_removes_exactly_one_entry:
  assumes "wf_lhm s this (xs @ a # ys)"
    and "iterator_deref s \<lparr>node = Some a, map_ptr = Some this\<rparr> = Some (Inr (k, v))"
  shows "\<exists>s'. erase s this \<lparr>node = Some a, map_ptr = Some this\<rparr> = Some (Inr (), s') \<and>
      count s' this k = Some 0 \<and>
      size_lhm s this = Some (Suc (length (xs @ ys))) \<and>
      size_lhm s' this = Some (length (xs @ ys)) \<and>
      iterate s this = Some (Inr (entries s xs @ (k, v) # entries s ys)) \<and>
      iterate s' this = Some (Inr (entries s xs @ entries s ys)) \<and>
      wf_lhm s' this (xs @ ys)"
proof -
  from wf_lhm_nodes[OF assms(1), of a] obtain n where n: "nodes s a = Some n" by auto
  then have d: "data n = (k, v)" using assms(2) by (simp add: iterator_deref_def)
  have en: "entries s (xs @ a # ys) = entries s xs @ (k, v) # entries s ys"
    using n d by (simp add: entries_def fld_def)
  from erase_valid[OF assms(1)] obtain s' where
    s': "erase s this \<lparr>node = Some a, map_ptr = Some this\<rparr> = Some (Inr (), s')"
      "wf_lhm s' this (xs @ ys)" "entries s' (xs @ ys) = entries s xs @ entries s ys"
    by blast
  have "distinct (map fst (entries s (xs @ a # ys)))"
    using assms(1) by (rule distinct_keys_entries)
  then have "k \<notin> fst ` set (entries s' (xs @ ys))"
    unfolding en s'(3) by auto
  then have "count s' this k = Some 0" using count_wf[OF s'(2), of k] by simp
  moreover have "size_lhm s this = Some (Suc (length (xs @ ys)))"
    using size_wf[OF assms(1)] by simp
  moreover have "iterate s this = Some (Inr (entries s xs @ (k, v) # entries s ys))"
    using iterate_wf[OF assms(1)] en by simp
  moreover have "iterate s' this = Some (Inr (entries s xs @ entries s ys))"
    using iterate_wf[OF s'(2)] s'(3) by simp
  ultimately show ?thesis using s' size_wf[OF s'(2)] by blast
qed

theorem erase_removes_exactly_one_entry_witness:
  "erase three_entry_store 0 \<lparr>node = Some 1, map_ptr = Some 0\<rparr> =
     Some (Inr (), middle_erased_store) \<and>
   count middle_erased_store 0 23 = Some 0 \<and>
   size_lhm three_entry_store 0 = Some 3 \<and> size_lhm middle_erased_store 0 = Some 2 \<and>
   iterate three_entry_store 0 = Some (Inr [(7, 70), (23, 230), (39, 390)]) \<and>
   iterate middle_erased_store 0 = Some (Inr [(7, 70), (39, 390)]) \<and>
   wf_lhm middle_erased_store 0 [0, 2]"
proof -
  have wf: "wf_lhm three_entry_store 0 ([0] @ 1 # [2])" using three_entry_store_wf(1) by simp
  have en: "entries three_entry_store [0] = [(7, 70)]" "entries three_entry_store [2] = [(39, 390)]"
    using three_entry_store_wf(2) by (simp_all add: entries_def)
  from wf_lhm_nodes[OF three_entry_store_wf(1), of 1] obtain n where
    n: "nodes three_entry_store 1 = Some n" by auto
  then have "data n = (23, 230)" using three_entry_store_wf(2) by (simp add: entries_def fld_def)
  then have "iterator_deref three_entry_store \<lparr>node = Some 1, map_ptr = Some 0\<rparr> =
      Some (Inr (23, 230))"
    using n by (simp add: iterator_deref_def)
  from erase_removes_exactly_one_entry[OF wf this]
  show ?thesis using en by (auto simp: middle_erased_store_def)
qed

lemma erase_dangling:
  "nodes s a = None \<Longrightarrow> maps s this \<noteq> None \<Longrightarrow>
   erase s this \<lparr>node = Some a, map_ptr = Some this\<rparr> = None"
  by (auto simp: erase_def remove_from_hash_def)

text \<open>Claim C6, as the code has it. \<^verbatim>\<open>erase\<close> throws \<^verbatim>\<open>invalid_iterator\<close> exactly when
  the iterator's \<^verbatim>\<open>node\<close> is null or its \<^verbatim>\<open>map\<close> is not this container: the
  past-the-end iterator and an iterator of another container are rejected, and an
  iterator to an entry of this container is accepted. No other exception is thrown, and
  when \<^verbatim>\<open>erase\<close> throws, the store is the one before the call.\<close>

theorem erase_throws_on_null_or_foreign_iterator:
  "(erase s this pos = Some (Inl invalid_iterator, s) \<longleftrightarrow>
      node pos = None \<or> map_ptr pos \<noteq> Some this) \<and>
   (\<forall>e s'. erase s this pos = Some (Inl e, s') \<longrightarrow> e = invalid_iterator \<and> s' = s) \<and>
   erase s this (end_lhm this) = Some (Inl invalid_iterator, s) \<and>
   (other \<noteq> this \<longrightarrow>
      erase s this \<lparr>node = nd, map_ptr = Some other\<rparr> = Some (Inl invalid_iterator, s)) \<and>
   (wf_lhm s this as \<and> a \<in> set as \<longrightarrow>
      (\<exists>s'. erase s this \<lparr>node = Some a, map_ptr = Some this\<rparr> = Some (Inr (), s')))"
proof (intro conjI impI allI)
  show "erase s this pos = Some (Inl invalid_iterator, s) \<longleftrightarrow>
      node pos = None \<or> map_ptr pos \<noteq> Some this"
    by (auto simp: erase_def bind_eq_Some_conv split: option.splits)
  show "e = invalid_iterator" "s' = s" if "erase s this pos = Some (Inl e, s')" for e s'
    using that by (auto simp: erase_def bind_eq_Some_conv split: option.splits if_splits)
  show "erase s this (end_lhm this) = Some (Inl invalid_iterator, s)"
    by (simp add: erase_def end_lhm_def)
  show "erase s this \<lparr>node = nd, map_ptr = Some other\<rparr> = Some (Inl invalid_iterator, s)"
    if "other \<noteq> this"
    using that by (simp add: erase_def split: option.splits)
  show "\<exists>s'. erase s this \<lparr>node = Some a, map_ptr = Some this\<rparr> = Some (Inr (), s')"
    if "wf_lhm s this as \<and> a \<in> set as"
  proof -
    from that obtain xs ys where "as = xs @ a # ys" by (auto simp: in_set_conv_decomp)
    with that erase_valid[of s this xs a ys] show ?thesis by blast
  qed
qed

theorem erase_throws_on_null_or_foreign_iterator_witness:
  "erase one_entry_store 0 (end_lhm 0) = Some (Inl invalid_iterator, one_entry_store) \<and>
   (1::nat) \<noteq> 0 \<and>
   erase one_entry_store 0 \<lparr>node = Some 0, map_ptr = Some 1\<rparr> =
     Some (Inl invalid_iterator, one_entry_store) \<and>
   wf_lhm one_entry_store 0 [0] \<and> (0::nat) \<in> set [0] \<and>
   erase one_entry_store 0 \<lparr>node = Some 0, map_ptr = Some 0\<rparr> = Some (Inr (), erased_store)"
  using erase_throws_on_null_or_foreign_iterator[of one_entry_store 0 "end_lhm 0" 1 "Some 0" "[0]" 0]
    one_entry_store_wf(1)
  by (auto simp: erased_store_def)

text \<open>Claim C6 as stated fails for an iterator to an entry that has already been
  removed: its \<^verbatim>\<open>node\<close> is not null and its \<^verbatim>\<open>map\<close> is this container, so \<^verbatim>\<open>erase\<close>
  does not throw but goes on to read the freed node, which is undefined behaviour.\<close>

theorem erase_stale_iterator_counterexample:
  "erase one_entry_store 0 \<lparr>node = Some 0, map_ptr = Some 0\<rparr> = Some (Inr (), erased_store) \<and>
   erase erased_store 0 \<lparr>node = Some 0, map_ptr = Some 0\<rparr> = None \<and>
   erase erased_store 0 \<lparr>node = Some 0, map_ptr = Some 0\<rparr> \<noteq>
     Some (Inl invalid_iterator, erased_store)"
proof -
  have wf: "wf_lhm one_entry_store 0 ([] @ 0 # [])" using one_entry_store_wf(1) by simp
  from erase_valid[OF wf] obtain s' where
    s': "erase one_entry_store 0 \<lparr>node = Some 0, map_ptr = Some 0\<rparr> = Some (Inr (), s')"
      "wf_lhm s' 0 ([] @ [])" "nodes s' 0 = None"
    by blast
  have eq: "erased_store = s'" using s'(1) by (simp add: erased_store_def)
  have "maps s' 0 \<noteq> None" using s'(2) by (auto elim: wf_lhmD)
  with s'(3) have "erase s' 0 \<lparr>node = Some 0, map_ptr = Some 0\<rparr> = None"
    by (intro erase_dangling)
  then show ?thesis using s'(1) eq by simp
qed

section \<open>Order preservation\<close>

lemma insert_all_append:
  "insert_all s this (xs @ ys) = insert_all s this xs \<bind> (\<lambda>s'. insert_all s' this ys)"
  by (induction xs arbitrary: s) (simp_all add: bind_assoc)

lemma insert_all_correct:
  assumes "wf_lhm s this as" and "alloc_ok s" and "distinct (map fst (entries s as @ kvs))"
  shows "\<exists>s' as'. insert_all s this kvs = Some s' \<and> wf_lhm s' this as' \<and> alloc_ok s' \<and>
      entries s' as' = entries s as @ kvs \<and> length as' = length as + length kvs \<and>
      (\<forall>t. t \<noteq> this \<longrightarrow> maps s' t = maps s t) \<and>
      (\<forall>x. x \<notin> set as \<and> x < next_node s \<longrightarrow> nodes s' x = nodes s x) \<and>
      next_node s \<le> next_node s' \<and> set as \<subseteq> set as' \<and>
      (\<forall>x\<in>set as'. x \<in> set as \<or> next_node s \<le> x)"
  using assms
proof (induction kvs arbitrary: s as)
  case Nil
  then show ?case by auto
next
  case (Cons kv kvs)
  obtain k v where kv: "kv = (k, v)" by (cases kv)
  obtain m where m: "maps s this = Some m" using Cons.prems(1) by (rule wf_lhmD)
  have absent: "k \<notin> fst ` set (entries s as)" using Cons.prems(3) kv by auto
  from insert_new[OF Cons.prems(1,2) absent m, of v] obtain s1 where
    s1: "insert_lhm s this (k, v) =
        Some (s1, \<lparr>node = Some (next_node s), map_ptr = Some this\<rparr>, True)"
      "wf_lhm s1 this (as @ [next_node s])" "alloc_ok s1" "next_node s1 = Suc (next_node s)"
      "entries s1 (as @ [next_node s]) = entries s as @ [(k, v)]"
      "\<forall>t. t \<noteq> this \<longrightarrow> maps s1 t = maps s t"
      "\<forall>x. x \<notin> set as \<and> x \<noteq> next_node s \<longrightarrow> nodes s1 x = nodes s x"
    by blast
  have "distinct (map fst (entries s1 (as @ [next_node s]) @ kvs))"
    using Cons.prems(3) kv by (simp add: s1(5))
  from Cons.IH[OF s1(2,3) this] obtain s' as' where
    r: "insert_all s1 this kvs = Some s'" "wf_lhm s' this as'" "alloc_ok s'"
      "entries s' as' = entries s1 (as @ [next_node s]) @ kvs"
      "length as' = length (as @ [next_node s]) + length kvs"
      "\<forall>t. t \<noteq> this \<longrightarrow> maps s' t = maps s1 t"
      "\<forall>x. x \<notin> set (as @ [next_node s]) \<and> x < next_node s1 \<longrightarrow> nodes s' x = nodes s1 x"
      "next_node s1 \<le> next_node s'" "set (as @ [next_node s]) \<subseteq> set as'"
      "\<forall>x\<in>set as'. x \<in> set (as @ [next_node s]) \<or> next_node s1 \<le> x"
    by blast
  have "insert_all s this (kv # kvs) = Some s'" using s1(1) r(1) kv by simp
  moreover have "entries s' as' = entries s as @ kv # kvs" using r(4) s1(5) kv by simp
  moreover have "length as' = length as + length (kv # kvs)" using r(5) by simp
  moreover have "\<forall>t. t \<noteq> this \<longrightarrow> maps s' t = maps s t" using r(6) s1(6) by simp
  moreover have "\<forall>x. x \<notin> set as \<and> x < next_node s \<longrightarrow> nodes s' x = nodes s x"
    using r(7) s1(4,7) by simp
  moreover have "next_node s \<le> next_node s'" using r(8) s1(4) by simp
  moreover have "set as \<subseteq> set as'" using r(9) by simp
  moreover have "\<forall>x\<in>set as'. x \<in> set as \<or> next_node s \<le> x"
    using r(10) s1(4) by fastforce
  ultimately show ?case using r(2,3) by blast
qed

text \<open>Claim C1. On a well-formed container, inserting key-value pairs whose keys are
  pairwise distinct and not yet present returns normally, and iterating from head to
  tail then yields the former entries followed by the inserted pairs in the order of
  insertion, whether or not the table grew in between. Rehashing alone leaves the
  iteration unchanged.\<close>

theorem insertion_order_is_iteration_order:
  assumes "wf_lhm s this as" and "alloc_ok s" and "distinct (map fst (entries s as @ kvs))"
  shows "iterate s this = Some (Inr (entries s as)) \<and>
    (\<exists>s'. insert_all s this kvs = Some s' \<and> iterate s' this = Some (Inr (entries s as @ kvs)) \<and>
        (\<exists>as'. wf_lhm s' this as' \<and> alloc_ok s')) \<and>
    (\<exists>s'. rehash s this = Some s' \<and> iterate s' this = iterate s this \<and>
        capacity s' this = map_option (\<lambda>c. 2 * c) (capacity s this))"
proof (intro conjI)
  show "iterate s this = Some (Inr (entries s as))" using assms(1) by (rule iterate_wf)
  from insert_all_correct[OF assms] obtain s' as' where
    r: "insert_all s this kvs = Some s'" "wf_lhm s' this as'" "alloc_ok s'"
      "entries s' as' = entries s as @ kvs"
    by blast
  then show "\<exists>s'. insert_all s this kvs = Some s' \<and>
      iterate s' this = Some (Inr (entries s as @ kvs)) \<and> (\<exists>as'. wf_lhm s' this as' \<and> alloc_ok s')"
    using iterate_wf[OF r(2)] by auto
  obtain m where m: "maps s this = Some m" using assms(1) by (rule wf_lhmD)
  from rehash_wf[OF assms(1) m] obtain s' tbl' where
    h: "rehash s this = Some s'" "wf_lhm s' this as"
      "maps s' this = Some (m\<lparr>hash_table := Some tbl', table_size := 2 * table_size m\<rparr>)"
      "fld data s' = fld data s"
    by blast
  have "entries s' as = entries s as" using h(4) by (simp add: entries_def)
  then show "\<exists>s'. rehash s this = Some s' \<and> iterate s' this = iterate s this \<and>
      capacity s' this = map_option (\<lambda>c. 2 * c) (capacity s this)"
    using h iterate_wf[OF h(2)] iterate_wf[OF assms(1)] m by (simp add: capacity_def)
qed

lemma fresh_container:
  "\<exists>s1. linked_hashmap_ctor (\<lambda>k. k) (=) empty_store 0 = Some s1 \<and> wf_lhm s1 0 [] \<and>
     alloc_ok s1 \<and> capacity s1 0 = Some 16 \<and> next_node s1 = 0"
proof -
  obtain s1 where s1: "linked_hashmap_ctor (\<lambda>k. k) (=) empty_store 0 = Some s1"
    "wf_lhm s1 0 []" "nodes s1 = nodes empty_store" "next_node s1 = next_node empty_store"
    "\<forall>m. maps s1 0 = Some m \<longrightarrow> table_size m = 16 \<and> hash_func m = (\<lambda>k. k)"
    using linked_hashmap_ctor_wf[of "\<lambda>k. k" empty_store 0] by blast
  have al: "alloc_ok s1" using s1(3,4) alloc_ok_empty_store by (simp add: alloc_ok_def)
  obtain m where m: "maps s1 0 = Some m" using s1(2) by (rule wf_lhmD)
  show ?thesis using s1 al m by (auto simp: capacity_def empty_store_def)
qed

theorem insertion_order_is_iteration_order_witness:
  "\<exists>s1 s'. linked_hashmap_ctor (\<lambda>k. k) (=) empty_store 0 = Some s1 \<and>
     insert_all s1 0 [(7, 70), (23, 10), (3, 30), (39, 5)] = Some s' \<and>
     iterate s' 0 = Some (Inr [(7, 70), (23, 10), (3, 30), (39, 5)])"
proof -
  from fresh_container obtain s1 where
    s1: "linked_hashmap_ctor (\<lambda>k. k) (=) empty_store 0 = Some s1" "wf_lhm s1 0 []" "alloc_ok s1"
    by blast
  have "distinct (map fst (entries s1 [] @ [(7::nat, 70::nat), (23, 10), (3, 30), (39, 5)]))"
    by simp
  from insertion_order_is_iteration_order[OF s1(2,3) this] s1(1)
  show ?thesis by auto
qed

section \<open>Writing a value through a reference\<close>

lemma buckets_ok_keys_cong:
  assumes "\<And>x. x \<in> set as \<Longrightarrow> map_option fst (dat' x) = map_option fst (dat x)"
  shows "buckets_ok hf n dat' hn hp tbl as = buckets_ok hf n dat hn hp tbl as"
proof -
  have "bucket_of hf n dat' x = bucket_of hf n dat x" if "x \<in> set as" for x
  proof -
    have "map_option (\<lambda>d. hf (fst d) mod n) (dat' x) =
        map_option (\<lambda>k. hf k mod n) (map_option fst (dat' x))"
      by (simp add: option.map_comp comp_def)
    also have "\<dots> = map_option (\<lambda>k. hf k mod n) (map_option fst (dat x))"
      using assms[OF that] by simp
    also have "\<dots> = map_option (\<lambda>d. hf (fst d) mod n) (dat x)"
      by (simp add: option.map_comp comp_def)
    finally show ?thesis by (simp add: bucket_of_def)
  qed
  then have "chain hf n dat' as i = chain hf n dat as i" for i
    unfolding chain_def by (intro filter_cong) simp_all
  then show ?thesis by (simp add: buckets_ok_def)
qed

lemma assign_value_wf:
  assumes wf: "wf_lhm s this (xs @ a # ys)"
  shows "\<exists>s' k v0. assign_value s a v = Some s' \<and> wf_lhm s' this (xs @ a # ys) \<and>
      key_at s a = Some k \<and>
      entries s (xs @ a # ys) = entries s xs @ (k, v0) # entries s ys \<and>
      entries s' (xs @ a # ys) = entries s xs @ (k, v) # entries s ys \<and>
      maps s' = maps s \<and> next_node s' = next_node s \<and> alloc_ok s' = alloc_ok s \<and>
      (\<forall>x. x \<noteq> a \<longrightarrow> nodes s' x = nodes s x)"
proof (rule wf_lhmD[OF wf], goal_cases)
  case (1 m tbl)
  from wf_lhm_nodes[OF wf, of a] obtain n where n: "nodes s a = Some n" by auto
  let ?g = "\<lambda>n::('a, 'b) Node. n\<lparr>data := (fst (data n), v)\<rparr>"
  let ?s = "upd s a ?g"
  have av: "assign_value s a v = Some ?s" using n by (simp add: assign_value_def upd_node_eq)
  have f: "fld next ?s = fld next s" "fld prev ?s = fld prev s"
    "fld hash_next ?s = fld hash_next s" "fld hash_prev ?s = fld hash_prev s"
    by (simp_all add: fld_upd_other)
  have d: "fld data ?s x = (if x = a then Some (fst (data n), v) else fld data s x)" for x
    using n by (simp add: fld_def)
  have k: "map_option fst (fld data ?s x) = map_option fst (fld data s x)" for x
    using n by (simp add: d) (simp add: fld_def)
  have ka: "key_at ?s = key_at s" by (simp add: key_at_def fun_eq_iff k)
  have bk: "buckets_ok (hash_func m) (table_size m) (fld data ?s) (fld hash_next s)
      (fld hash_prev s) tbl (xs @ a # ys)"
    using 1(13) k by (simp add: buckets_ok_keys_cong[of _ "fld data ?s" "fld data s"])
  have "wf_lhm ?s this (xs @ a # ys)"
    using 1 bk by (simp add: wf_lhm_def f ka)
  moreover have "entries s (xs @ a # ys) = entries s xs @ (fst (data n), snd (data n)) # entries s ys"
    using n by (simp add: entries_def fld_def)
  moreover have "entries ?s (xs @ a # ys) = entries s xs @ (fst (data n), v) # entries s ys"
    using 1(3) by (auto simp: entries_def d)
  moreover have "alloc_ok ?s = alloc_ok s" by simp
  moreover have "key_at s a = Some (fst (data n))" using n by (simp add: key_at_def fld_def)
  ultimately show ?case using av
    by (intro exI[of _ ?s] exI[of _ "fst (data n)"] exI[of _ "snd (data n)"]) simp
qed

lemma map_update_decomp:
  assumes "distinct (map fst (xs @ (k, v0) # ys))"
  shows "map (\<lambda>e. if fst e = k then (k, v) else e) (xs @ (k, v0) # ys) = xs @ (k, v) # ys"
proof -
  have "map (\<lambda>e. if fst e = k then (k, v) else e) zs = zs" if "k \<notin> fst ` set zs"
    for zs :: "('a \<times> 'b) list"
    using that by (induction zs) auto
  then show ?thesis using assms by auto
qed

section \<open>Operations refine their specification\<close>

lemma frame_ok_refl: "frame_ok this s as s as"
  by (simp add: frame_ok_def)

lemma frame_ok_trans:
  assumes "frame_ok this s as s1 as1" and "frame_ok this s1 as1 s2 as2"
  shows "frame_ok this s as s2 as2"
  unfolding frame_ok_def
proof (intro conjI allI impI ballI)
  fix t assume "t \<noteq> this"
  then show "maps s2 t = maps s t" using assms by (simp add: frame_ok_def)
next
  fix x assume x: "x \<notin> set as \<and> x < next_node s"
  then have "x \<notin> set as1 \<and> x < next_node s1" using assms(1) by (fastforce simp: frame_ok_def)
  then have "nodes s2 x = nodes s1 x" using assms(2) by (simp add: frame_ok_def)
  then show "nodes s2 x = nodes s x" using x assms(1) by (simp add: frame_ok_def)
next
  show "next_node s \<le> next_node s2" using assms by (simp add: frame_ok_def)
next
  fix x assume "x \<in> set as2"
  then have "x \<in> set as1 \<or> next_node s1 \<le> x" using assms(2) by (simp add: frame_ok_def)
  then show "x \<in> set as \<or> next_node s \<le> x" using assms(1) by (fastforce simp: frame_ok_def)
qed

lemma filter_key_decomp:
  assumes "distinct (map fst (xs @ (k, v) # ys))"
  shows "filter (\<lambda>e. fst e \<noteq> k) (xs @ (k, v) # ys) = xs @ ys"
proof -
  have "filter (\<lambda>e. fst e \<noteq> k) zs = zs" if "k \<notin> fst ` set zs" for zs :: "('a \<times> 'b) list"
    using that by (induction zs) auto
  then show ?thesis using assms by auto
qed

lemma filter_key_absent: "k \<notin> fst ` set es \<Longrightarrow> filter (\<lambda>e. fst e \<noteq> k) es = es"
  by (induction es) auto

lemma find_lhm_wf:
  assumes "wf_lhm s this as"
  shows "k \<notin> fst ` set (entries s as) \<Longrightarrow> find_lhm s this k = Some (end_lhm this)"
    and "k \<in> fst ` set (entries s as) \<Longrightarrow>
      \<exists>a\<in>set as. key_at s a = Some k \<and> find_lhm s this k = Some \<lparr>node = Some a, map_ptr = Some this\<rparr>"
proof -
  show "find_lhm s this k = Some (end_lhm this)" if "k \<notin> fst ` set (entries s as)"
    using find_node_absent[OF assms key_absent[OF assms that]] by (simp add: find_lhm_def)
  show "\<exists>a\<in>set as. key_at s a = Some k \<and>
      find_lhm s this k = Some \<lparr>node = Some a, map_ptr = Some this\<rparr>"
    if "k \<in> fst ` set (entries s as)"
  proof -
    from key_present[OF assms that] obtain a where a: "a \<in> set as" "key_at s a = Some k" by blast
    then have "find_node s this k = Some (Some a)" using assms by (intro find_node_present)
    then show ?thesis using a by (auto simp: find_lhm_def)
  qed
qed

lemma capacity_wf:
  "wf_lhm s this as \<Longrightarrow> \<exists>c. capacity s this = Some c"
  by (erule wf_lhmD) (simp add: capacity_def)

lemma run_op_correct:
  assumes wf: "wf_lhm s this as" and al: "alloc_ok s" and c: "capacity s this = Some c"
  shows "\<exists>s' as'. run_op dflt s this x = Some s' \<and> wf_lhm s' this as' \<and> alloc_ok s' \<and>
      entries s' as' = spec_op dflt (entries s as) x \<and> frame_ok this s as s' as' \<and>
      (capacity s' this = Some c \<or> capacity s' this = Some (2 * c)) \<and>
      (erasing x \<longrightarrow> capacity s' this = Some c)"
proof -
  obtain m where m: "maps s this = Some m" using wf by (rule wf_lhmD)
  have cm: "table_size m = c" using c m by (simp add: capacity_def)
  have ins: "\<exists>s'. insert_lhm s this (k, v) =
        Some (s', \<lparr>node = Some (next_node s), map_ptr = Some this\<rparr>, True) \<and>
      find_node s' this k = Some (Some (next_node s)) \<and>
      wf_lhm s' this (as @ [next_node s]) \<and> alloc_ok s' \<and>
      entries s' (as @ [next_node s]) = entries s as @ [(k, v)] \<and>
      frame_ok this s as s' (as @ [next_node s]) \<and>
      (capacity s' this = Some c \<or> capacity s' this = Some (2 * c))"
    if absent: "k \<notin> fst ` set (entries s as)" for k v
  proof -
    from insert_new[OF wf al absent m, of v] obtain s' where
      s': "insert_lhm s this (k, v) =
          Some (s', \<lparr>node = Some (next_node s), map_ptr = Some this\<rparr>, True)"
        "wf_lhm s' this (as @ [next_node s])" "alloc_ok s'" "next_node s' = Suc (next_node s)"
        "entries s' (as @ [next_node s]) = entries s as @ [(k, v)]"
        "\<forall>m'. maps s' this = Some m' \<longrightarrow> table_size m' =
              (if 3 * table_size m \<le> 4 * length as then 2 * table_size m else table_size m)"
        "\<forall>t. t \<noteq> this \<longrightarrow> maps s' t = maps s t"
        "\<forall>x. x \<notin> set as \<and> x \<noteq> next_node s \<longrightarrow> nodes s' x = nodes s x"
      by blast
    obtain m' where m': "maps s' this = Some m'" using s'(2) by (rule wf_lhmD)
    have "capacity s' this = Some c \<or> capacity s' this = Some (2 * c)"
      using s'(6) m' cm by (auto simp: capacity_def)
    moreover have "frame_ok this s as s' (as @ [next_node s])"
      using s'(4,7,8) by (auto simp: frame_ok_def)
    moreover have "find_node s' this k = Some (Some (next_node s))"
    proof (rule find_node_present[OF s'(2)])
      show "next_node s \<in> set (as @ [next_node s])" by simp
      have "map (key_at s') (as @ [next_node s]) =
          map (\<lambda>e. Some (fst e)) (entries s' (as @ [next_node s]))"
        using s'(2) by (rule key_at_entries)
      then show "key_at s' (next_node s) = Some k" by (simp add: s'(5))
    qed
    ultimately show ?thesis using s'(1,2,3,5) by blast
  qed
  show ?thesis
  proof (cases x)
    case (Insert k v)
    show ?thesis
    proof (cases "k \<in> fst ` set (entries s as)")
      case True
      from insert_existing[OF wf True, of v] obtain a where
        "insert_lhm s this (k, v) = Some (s, \<lparr>node = Some a, map_ptr = Some this\<rparr>, False)"
        by blast
      then show ?thesis using Insert True wf al c frame_ok_refl[of this s as]
        by (intro exI[of _ s] exI[of _ as]) simp
    next
      case False
      from ins[OF False, of v] show ?thesis using Insert False by auto
    qed
  next
    case (Erase k)
    show ?thesis
    proof (cases "k \<in> fst ` set (entries s as)")
      case False
      have "find_lhm s this k = Some (end_lhm this)" using wf False by (rule find_lhm_wf)
      then have "run_op dflt s this x = Some s"
        using Erase by (simp add: erase_def end_lhm_def)
      then show ?thesis using Erase False wf al c frame_ok_refl[of this s as]
        by (intro exI[of _ s] exI[of _ as]) (simp add: filter_key_absent)
    next
      case True
      from find_lhm_wf(2)[OF wf True] obtain a where a: "a \<in> set as" "key_at s a = Some k"
        "find_lhm s this k = Some \<lparr>node = Some a, map_ptr = Some this\<rparr>"
        by blast
      from a(1) obtain xs ys where as: "as = xs @ a # ys" by (auto simp: in_set_conv_decomp)
      from erase_valid[of s this xs a ys] wf as obtain s' where
        s': "erase s this \<lparr>node = Some a, map_ptr = Some this\<rparr> = Some (Inr (), s')"
          "wf_lhm s' this (xs @ ys)" "entries s' (xs @ ys) = entries s xs @ entries s ys"
          "next_node s' = next_node s"
          "\<forall>m m'. maps s this = Some m \<longrightarrow> maps s' this = Some m' \<longrightarrow>
              table_size m' = table_size m"
          "\<forall>t. t \<noteq> this \<longrightarrow> maps s' t = maps s t"
          "\<forall>x. x \<notin> set (xs @ a # ys) \<longrightarrow> nodes s' x = nodes s x"
          "\<forall>x. nodes s x = None \<longrightarrow> nodes s' x = None"
        by blast
      from wf_lhm_nodes[OF wf a(1)] obtain n where n: "nodes s a = Some n" by blast
      have "fst (data n) = k" using a(2) n by (simp add: key_at_def fld_def)
      then have "data n = (k, snd (data n))" by (cases "data n") simp
      then have en: "entries s as = entries s xs @ (k, snd (data n)) # entries s ys"
        using as n by (simp add: entries_def fld_def)
      have "distinct (map fst (entries s as))" using wf by (rule distinct_keys_entries)
      then have "filter (\<lambda>e. fst e \<noteq> k) (entries s as) = entries s xs @ entries s ys"
        unfolding en by (rule filter_key_decomp)
      then have sp: "spec_op dflt (entries s as) x = entries s xs @ entries s ys"
        using Erase by simp
      obtain m' where m': "maps s' this = Some m'" using s'(2) by (rule wf_lhmD)
      have "capacity s' this = Some c" using s'(5) m m' cm by (simp add: capacity_def)
      moreover have "alloc_ok s'" using al s'(4,8) by (simp add: alloc_ok_def)
      moreover have "frame_ok this s as s' (xs @ ys)"
        using s'(4,6,7) as by (auto simp: frame_ok_def)
      moreover have "run_op dflt s this x = Some s'" using Erase a(3) s'(1) by simp
      ultimately show ?thesis using s'(2,3) sp by (intro exI[of _ s'] exI[of _ "xs @ ys"]) simp
    qed
  next
    case Clear
    from clear_wf[OF wf m] obtain s' where
      s': "clear s this = Some s'" "wf_lhm s' this []"
        "maps s' this = Some (m\<lparr>head := None, tail := None, element_count := 0,
          hash_table := Some (replicate (table_size m) None)\<rparr>)"
        "next_node s' = next_node s" "\<forall>t. t \<noteq> this \<longrightarrow> maps s' t = maps s t"
        "\<forall>x. nodes s' x = (if x \<in> set as then None else nodes s x)"
      by blast
    have "capacity s' this = Some c" using s'(3) cm by (simp add: capacity_def)
    moreover have "alloc_ok s'" using al s'(4,6) by (simp add: alloc_ok_def)
    moreover have "frame_ok this s as s' []" using s'(4,5,6) by (simp add: frame_ok_def)
    ultimately show ?thesis using Clear s'(1,2)
      by (intro exI[of _ s'] exI[of _ "[]"]) simp
  next
    case (Index k)
    show ?thesis
    proof (cases "k \<in> fst ` set (entries s as)")
      case True
      from key_present[OF wf True] obtain a where a: "a \<in> set as" "key_at s a = Some k" by blast
      then have "find_node s this k = Some (Some a)" using wf by (intro find_node_present)
      then have "run_op dflt s this x = Some s" using Index by (simp add: operator_index_def)
      then show ?thesis using Index True wf al c frame_ok_refl[of this s as]
        by (intro exI[of _ s] exI[of _ as]) simp
    next
      case False
      have fn: "find_node s this k = Some None"
        using wf key_absent[OF wf False] by (rule find_node_absent)
      from ins[OF False, of dflt] obtain s' where
        s': "insert_lhm s this (k, dflt) =
            Some (s', \<lparr>node = Some (next_node s), map_ptr = Some this\<rparr>, True)"
          "find_node s' this k = Some (Some (next_node s))"
          "wf_lhm s' this (as @ [next_node s])" "alloc_ok s'"
          "entries s' (as @ [next_node s]) = entries s as @ [(k, dflt)]"
          "frame_ok this s as s' (as @ [next_node s])"
          "capacity s' this = Some c \<or> capacity s' this = Some (2 * c)"
        by blast
      have "run_op dflt s this x = Some s'"
        using Index fn s'(1,2) by (simp add: operator_index_def)
      then show ?thesis using Index False s'(3-7)
        by (intro exI[of _ s'] exI[of _ "as @ [next_node s]"]) simp
    qed
  next
    case (Put k v)
    show ?thesis
    proof (cases "k \<in> fst ` set (entries s as)")
      case True
      from key_present[OF wf True] obtain a where a: "a \<in> set as" "key_at s a = Some k" by blast
      then have fn: "find_node s this k = Some (Some a)" using wf by (intro find_node_present)
      from a(1) obtain xs ys where as: "as = xs @ a # ys" by (auto simp: in_set_conv_decomp)
      from assign_value_wf[of s this xs a ys v] wf as obtain s' k' v0 where
        s': "assign_value s a v = Some s'" "wf_lhm s' this as" "key_at s a = Some k'"
          "entries s as = entries s xs @ (k', v0) # entries s ys"
          "entries s' as = entries s xs @ (k', v) # entries s ys"
          "maps s' = maps s" "next_node s' = next_node s" "alloc_ok s' = alloc_ok s"
          "\<forall>x. x \<noteq> a \<longrightarrow> nodes s' x = nodes s x"
        by auto
      have k': "k' = k" using s'(3) a(2) by simp
      have "distinct (map fst (entries s as))" using wf by (rule distinct_keys_entries)
      then have "map (\<lambda>e. if fst e = k then (k, v) else e) (entries s as) =
          entries s xs @ (k, v) # entries s ys"
        unfolding s'(4) k' by (rule map_update_decomp)
      then have sp: "spec_op dflt (entries s as) x = entries s' as"
        using Put True s'(5) k' by simp
      have "run_op dflt s this x = Some s'"
        using Put fn s'(1) by (simp add: operator_index_def)
      moreover have "frame_ok this s as s' as"
        using s'(6,7,9) a(1) by (auto simp: frame_ok_def)
      moreover have "capacity s' this = Some c" using c s'(6) by (simp add: capacity_def)
      ultimately show ?thesis using Put s'(2,8) al sp
        by (intro exI[of _ s'] exI[of _ as]) simp
    next
      case False
      have fn: "find_node s this k = Some None"
        using wf key_absent[OF wf False] by (rule find_node_absent)
      from ins[OF False, of dflt] obtain s1 where
        s1: "insert_lhm s this (k, dflt) =
            Some (s1, \<lparr>node = Some (next_node s), map_ptr = Some this\<rparr>, True)"
          "find_node s1 this k = Some (Some (next_node s))"
          "wf_lhm s1 this (as @ [next_node s])" "alloc_ok s1"
          "entries s1 (as @ [next_node s]) = entries s as @ [(k, dflt)]"
          "frame_ok this s as s1 (as @ [next_node s])"
          "capacity s1 this = Some c \<or> capacity s1 this = Some (2 * c)"
        by blast
      from assign_value_wf[of s1 this as "next_node s" "[]" v] s1(3) obtain s' k' v0 where
        s': "assign_value s1 (next_node s) v = Some s'" "wf_lhm s' this (as @ [next_node s])"
          "entries s1 (as @ [next_node s]) = entries s1 as @ (k', v0) # entries s1 []"
          "entries s' (as @ [next_node s]) = entries s1 as @ (k', v) # entries s1 []"
          "maps s' = maps s1" "next_node s' = next_node s1" "alloc_ok s' = alloc_ok s1"
          "\<forall>x. x \<noteq> next_node s \<longrightarrow> nodes s' x = nodes s1 x"
        by auto
      have "entries s1 as = entries s as \<and> k' = k" using s'(3) s1(5) by simp
      then have en: "entries s' (as @ [next_node s]) = entries s as @ [(k, v)]"
        using s'(4) by simp
      have "run_op dflt s this x = Some s'"
        using Put fn s1(1,2) s'(1) by (simp add: operator_index_def)
      moreover have "frame_ok this s1 (as @ [next_node s]) s' (as @ [next_node s])"
        using s'(5,6,8) by (auto simp: frame_ok_def)
      with s1(6) have "frame_ok this s as s' (as @ [next_node s])" by (rule frame_ok_trans)
      moreover have "capacity s' this = Some c \<or> capacity s' this = Some (2 * c)"
        using s1(7) s'(5) by (simp add: capacity_def)
      ultimately show ?thesis using Put False s'(2,7) s1(4) en
        by (intro exI[of _ s'] exI[of _ "as @ [next_node s]"]) simp
    qed
  qed
qed

lemma run_ops_correct:
  assumes "wf_lhm s this as" and "alloc_ok s" and "capacity s this = Some c"
  shows "\<exists>s' as'. run_ops dflt s this ops = Some s' \<and> wf_lhm s' this as' \<and> alloc_ok s' \<and>
      entries s' as' = spec_ops dflt (entries s as) ops \<and> frame_ok this s as s' as' \<and>
      (\<exists>j. capacity s' this = Some (2 ^ j * c))"
  using assms
proof (induction ops arbitrary: s as c)
  case Nil
  have "capacity s this = Some (2 ^ 0 * c)" using Nil(3) by simp
  then have "\<exists>j. capacity s this = Some (2 ^ j * c)" by blast
  then show ?case using Nil(1,2) frame_ok_refl[of this s as]
    by (intro exI[of _ s] exI[of _ as]) (simp add: spec_ops_def)
next
  case (Cons x ops)
  from run_op_correct[OF Cons.prems, of dflt x] obtain s1 as1 where
    s1: "run_op dflt s this x = Some s1" "wf_lhm s1 this as1" "alloc_ok s1"
      "entries s1 as1 = spec_op dflt (entries s as) x" "frame_ok this s as s1 as1"
      "capacity s1 this = Some c \<or> capacity s1 this = Some (2 * c)"
    by blast
  then obtain i where i: "capacity s1 this = Some (2 ^ i * c)"
    by (metis mult.commute mult.right_neutral power_0 power_one_right)
  from Cons.IH[OF s1(2,3) i] obtain s' as' j where
    r: "run_ops dflt s1 this ops = Some s'" "wf_lhm s' this as'" "alloc_ok s'"
      "entries s' as' = spec_ops dflt (entries s1 as1) ops" "frame_ok this s1 as1 s' as'"
      "capacity s' this = Some (2 ^ j * (2 ^ i * c))"
    by blast
  have "run_ops dflt s this (x # ops) = Some s'" using s1(1) r(1) by simp
  moreover have "entries s' as' = spec_ops dflt (entries s as) (x # ops)"
    using r(4) s1(4) by (simp add: spec_ops_def)
  moreover have "frame_ok this s as s' as'" using s1(5) r(5) by (rule frame_ok_trans)
  moreover have "capacity s' this = Some (2 ^ (j + i) * c)"
    using r(6) by (simp add: power_add)
  ultimately show ?case using r(2,3) by blast
qed

section \<open>Lookup\<close>

lemma entry_node:
  assumes "wf_lhm s this as" and "(k, v) \<in> set (entries s as)"
  shows "\<exists>a n. a \<in> set as \<and> nodes s a = Some n \<and> data n = (k, v) \<and>
      find_node s this k = Some (Some a)"
proof -
  have "k \<in> fst ` set (entries s as)" using assms(2) by force
  from key_present[OF assms(1) this] obtain a where a: "a \<in> set as" "key_at s a = Some k" by blast
  from wf_lhm_nodes[OF assms(1) a(1)] obtain n where n: "nodes s a = Some n" by blast
  have d: "data n \<in> set (entries s as)"
    using a(1) n by (force simp: entries_def fld_def)
  have "fst (data n) = k" using a(2) n by (simp add: key_at_def fld_def)
  moreover have "distinct (map fst (entries s as))"
    using assms(1) by (rule distinct_keys_entries)
  ultimately have "data n = (k, v)"
    using d assms(2) by (metis eq_key_imp_eq_value prod.collapse)
  moreover have "find_node s this k = Some (Some a)"
    using assms(1) a by (rule find_node_present)
  ultimately show ?thesis using a(1) n by blast
qed

lemma lookup_wf:
  assumes "wf_lhm s this as"
  shows "(k, v) \<in> set (entries s as) \<Longrightarrow>
      \<exists>it. find_lhm s this k = Some it \<and> iterator_neq it (end_lhm this) \<and>
        iterator_deref s it = Some (Inr (k, v)) \<and> count s this k = Some 1"
    and "k \<notin> fst ` set (entries s as) \<Longrightarrow>
      find_lhm s this k = Some (end_lhm this) \<and> count s this k = Some 0"
proof -
  show "\<exists>it. find_lhm s this k = Some it \<and> iterator_neq it (end_lhm this) \<and>
        iterator_deref s it = Some (Inr (k, v)) \<and> count s this k = Some 1"
    if "(k, v) \<in> set (entries s as)"
  proof -
    from entry_node[OF assms that] obtain a n where
      "nodes s a = Some n" "data n = (k, v)" "find_node s this k = Some (Some a)"
      by blast
    then show ?thesis
      by (simp add: find_lhm_def count_def iterator_deref_def iterator_neq_def iterator_eq_def
          end_lhm_def)
  qed
  show "find_lhm s this k = Some (end_lhm this) \<and> count s this k = Some 0"
    if "k \<notin> fst ` set (entries s as)"
    using find_lhm_wf(1)[OF assms that] count_wf[OF assms, of k] that by simp
qed

text \<open>Claim C2. After any sequence of insertions, erasures, clears and accesses by
  \<^verbatim>\<open>operator[]\<close> applied to a well-formed container, the entries are the ones the
  specification gives (\<open>spec_ops\<close>): for a key that was inserted and not erased since,
  \<^verbatim>\<open>find\<close> returns an iterator, different from \<^verbatim>\<open>end()\<close>, to the entry with that key and
  with the value stored for it; for every other key \<^verbatim>\<open>find\<close> returns \<^verbatim>\<open>end()\<close> and
  \<^verbatim>\<open>count\<close> returns 0.\<close>

theorem lookup_finds_what_is_stored:
  assumes "wf_lhm s this as" and "alloc_ok s"
  shows "\<exists>s'. run_ops dflt s this ops = Some s' \<and>
      iterate s' this = Some (Inr (spec_ops dflt (entries s as) ops)) \<and>
      (\<forall>k v. (k, v) \<in> set (spec_ops dflt (entries s as) ops) \<longrightarrow>
         (\<exists>it. find_lhm s' this k = Some it \<and> iterator_neq it (end_lhm this) \<and>
            iterator_deref s' it = Some (Inr (k, v)) \<and> count s' this k = Some 1)) \<and>
      (\<forall>k. k \<notin> fst ` set (spec_ops dflt (entries s as) ops) \<longrightarrow>
         find_lhm s' this k = Some (end_lhm this) \<and> count s' this k = Some 0)"
proof -
  from capacity_wf[OF assms(1)] obtain c where c: "capacity s this = Some c" by blast
  from run_ops_correct[OF assms c, of dflt ops] obtain s' as' where
    r: "run_ops dflt s this ops = Some s'" "wf_lhm s' this as'"
      "entries s' as' = spec_ops dflt (entries s as) ops"
    by blast
  show ?thesis
    using r(1) iterate_wf[OF r(2)] lookup_wf[OF r(2)] unfolding r(3)
    by (intro exI[of _ s']) blast
qed

theorem lookup_finds_what_is_stored_witness:
  "\<exists>s1 s'. linked_hashmap_ctor (\<lambda>k. k) (=) empty_store 0 = Some s1 \<and>
     run_ops 0 s1 0 [Insert 1 10, Insert 17 20, Insert 1 30, Erase 17, Insert 2 40] = Some s' \<and>
     iterate s' 0 = Some (Inr [(1, 10), (2, 40)]) \<and>
     (\<exists>it. find_lhm s' 0 1 = Some it \<and> iterator_deref s' it = Some (Inr (1, 10))) \<and>
     find_lhm s' 0 17 = Some (end_lhm 0) \<and> count s' 0 17 = Some 0 \<and>
     find_lhm s' 0 5 = Some (end_lhm 0) \<and> count s' 0 5 = Some 0"
proof -
  from fresh_container obtain s1 where
    s1: "linked_hashmap_ctor (\<lambda>k. k) (=) empty_store 0 = Some s1" "wf_lhm s1 0 []" "alloc_ok s1"
    by blast
  have sp: "spec_ops (0::nat) (entries s1 [])
      [Insert (1::nat) 10, Insert 17 20, Insert 1 30, Erase 17, Insert 2 40] = [(1, 10), (2, 40)]"
    by (simp add: spec_ops_def)
  from lookup_finds_what_is_stored[OF s1(2,3), of 0
      "[Insert 1 10, Insert 17 20, Insert 1 30, Erase 17, Insert 2 40]"]
  obtain s' where
    r: "run_ops 0 s1 0 [Insert 1 10, Insert 17 20, Insert 1 30, Erase 17, Insert 2 40] = Some s'"
      "iterate s' 0 = Some (Inr [(1, 10), (2, 40)])"
      "\<forall>k v. (k, v) \<in> set [(1, 10), (2, 40)] \<longrightarrow>
         (\<exists>it. find_lhm s' 0 k = Some it \<and> iterator_neq it (end_lhm 0) \<and>
            iterator_deref s' it = Some (Inr (k, v)) \<and> count s' 0 k = Some 1)"
      "\<forall>k. k \<notin> fst ` set [(1::nat, 10::nat), (2, 40)] \<longrightarrow>
         find_lhm s' 0 k = Some (end_lhm 0) \<and> count s' 0 k = Some 0"
    unfolding sp by blast
  have "\<exists>it. find_lhm s' 0 1 = Some it \<and> iterator_deref s' it = Some (Inr (1, 10))"
    using r(3) by auto
  moreover have "find_lhm s' 0 17 = Some (end_lhm 0) \<and> count s' 0 17 = Some 0"
    using r(4) by simp
  moreover have "find_lhm s' 0 5 = Some (end_lhm 0) \<and> count s' 0 5 = Some 0"
    using r(4) by simp
  ultimately show ?thesis using s1(1) r(1,2) by blast
qed

section \<open>Access by key\<close>

text \<open>Claim C7. On a well-formed container, \<^verbatim>\<open>at(k)\<close> throws \<^verbatim>\<open>index_out_of_bound\<close>
  exactly when \<open>k\<close> is absent, and otherwise returns a reference to the value stored for
  \<open>k\<close>; it only reads the store. The non-const \<^verbatim>\<open>operator[]\<close> always returns a reference
  and throws nothing: for a present key the store is unchanged and the reference is to
  the stored value; for an absent key the entry \<open>(k, T())\<close> is first appended, and the
  reference is to that value.\<close>

theorem access_by_key:
  assumes "wf_lhm s this as" and "alloc_ok s"
  shows "(at_lhm s this k = Some (Inl index_out_of_bound) \<longleftrightarrow> k \<notin> fst ` set (entries s as)) \<and>
    (\<forall>v. (k, v) \<in> set (entries s as) \<longrightarrow>
       (\<exists>a. at_lhm s this k = Some (Inr a) \<and> value_at s a = Some v \<and>
          operator_index dflt s this k = Some (s, a))) \<and>
    (k \<notin> fst ` set (entries s as) \<longrightarrow>
       (\<exists>s' a. operator_index dflt s this k = Some (s', a) \<and> value_at s' a = Some dflt \<and>
          iterate s' this = Some (Inr (entries s as @ [(k, dflt)])) \<and>
          at_lhm s' this k = Some (Inr a)))"
proof (intro conjI allI impI)
  show "at_lhm s this k = Some (Inl index_out_of_bound) \<longleftrightarrow> k \<notin> fst ` set (entries s as)"
  proof (cases "k \<in> fst ` set (entries s as)")
    case True
    from key_present[OF assms(1) True] obtain a where "a \<in> set as" "key_at s a = Some k" by blast
    then have "find_node s this k = Some (Some a)" using assms(1) by (intro find_node_present)
    then show ?thesis using True by (simp add: at_lhm_def)
  next
    case False
    have "find_node s this k = Some None"
      using assms(1) key_absent[OF assms(1) False] by (rule find_node_absent)
    then show ?thesis using False by (simp add: at_lhm_def)
  qed
next
  fix v assume "(k, v) \<in> set (entries s as)"
  from entry_node[OF assms(1) this] obtain a n where
    "nodes s a = Some n" "data n = (k, v)" "find_node s this k = Some (Some a)"
    by blast
  then show "\<exists>a. at_lhm s this k = Some (Inr a) \<and> value_at s a = Some v \<and>
      operator_index dflt s this k = Some (s, a)"
    by (simp add: at_lhm_def value_at_def operator_index_def)
next
  assume absent: "k \<notin> fst ` set (entries s as)"
  obtain m where m: "maps s this = Some m" using assms(1) by (rule wf_lhmD)
  have fn: "find_node s this k = Some None"
    using assms(1) key_absent[OF assms(1) absent] by (rule find_node_absent)
  from insert_new[OF assms absent m, of dflt] obtain s' where
    s': "insert_lhm s this (k, dflt) =
        Some (s', \<lparr>node = Some (next_node s), map_ptr = Some this\<rparr>, True)"
      "wf_lhm s' this (as @ [next_node s])"
      "entries s' (as @ [next_node s]) = entries s as @ [(k, dflt)]"
    by blast
  have "(k, dflt) \<in> set (entries s' (as @ [next_node s]))" by (simp add: s'(3))
  from entry_node[OF s'(2) this] obtain a n where
    a: "nodes s' a = Some n" "data n = (k, dflt)" "find_node s' this k = Some (Some a)"
    by blast
  have "operator_index dflt s this k = Some (s', a)"
    using fn s'(1) a(3) by (simp add: operator_index_def)
  moreover have "value_at s' a = Some dflt" using a(1,2) by (simp add: value_at_def)
  moreover have "iterate s' this = Some (Inr (entries s as @ [(k, dflt)]))"
    using iterate_wf[OF s'(2)] s'(3) by simp
  moreover have "at_lhm s' this k = Some (Inr a)" using a(3) by (simp add: at_lhm_def)
  ultimately show "\<exists>s' a. operator_index dflt s this k = Some (s', a) \<and>
      value_at s' a = Some dflt \<and> iterate s' this = Some (Inr (entries s as @ [(k, dflt)])) \<and>
      at_lhm s' this k = Some (Inr a)"
    by blast
qed

theorem access_by_key_witness:
  "at_lhm one_entry_store 0 5 = Some (Inl index_out_of_bound) \<and>
   (\<exists>a. at_lhm one_entry_store 0 1 = Some (Inr a) \<and> value_at one_entry_store a = Some 10 \<and>
      operator_index 0 one_entry_store 0 1 = Some (one_entry_store, a)) \<and>
   (\<exists>s' a. operator_index 0 one_entry_store 0 5 = Some (s', a) \<and> value_at s' a = Some 0 \<and>
      iterate s' 0 = Some (Inr [(1, 10), (5, 0)]))"
  using access_by_key[OF one_entry_store_wf(1,2), of 5 0]
    access_by_key[OF one_entry_store_wf(1,2), of 1 0]
  by (simp add: one_entry_store_wf(3)) blast

section \<open>Capacity\<close>

lemma capacity_table_size: "maps s this = Some m \<Longrightarrow> capacity s this = Some (table_size m)"
  by (simp add: capacity_def)

lemma insert_all_no_growth:
  assumes "wf_lhm s this as" and "alloc_ok s" and "distinct (map fst (entries s as @ kvs))"
    and "capacity s this = Some c" and "4 * (length as + length kvs) \<le> 3 * c"
  shows "\<exists>s' as'. insert_all s this kvs = Some s' \<and> wf_lhm s' this as' \<and> alloc_ok s' \<and>
      entries s' as' = entries s as @ kvs \<and> length as' = length as + length kvs \<and>
      capacity s' this = Some c"
  using assms
proof (induction kvs arbitrary: s as)
  case Nil
  then show ?case by auto
next
  case (Cons kv kvs)
  obtain k v where kv: "kv = (k, v)" by (cases kv)
  obtain m where m: "maps s this = Some m" using Cons.prems(1) by (rule wf_lhmD)
  have cm: "table_size m = c" using Cons.prems(4) m by (simp add: capacity_def)
  have absent: "k \<notin> fst ` set (entries s as)" using Cons.prems(3) kv by auto
  from insert_new[OF Cons.prems(1,2) absent m, of v] obtain s1 where
    s1: "insert_lhm s this (k, v) =
        Some (s1, \<lparr>node = Some (next_node s), map_ptr = Some this\<rparr>, True)"
      "wf_lhm s1 this (as @ [next_node s])" "alloc_ok s1"
      "entries s1 (as @ [next_node s]) = entries s as @ [(k, v)]"
      "\<forall>m'. maps s1 this = Some m' \<longrightarrow> table_size m' =
              (if 3 * table_size m \<le> 4 * length as then 2 * table_size m else table_size m)"
    by blast
  obtain m1 where m1: "maps s1 this = Some m1" using s1(2) by (rule wf_lhmD)
  have "\<not> 3 * table_size m \<le> 4 * length as" using Cons.prems(5) cm by simp
  then have c1: "capacity s1 this = Some c" using s1(5) m1 cm by (simp add: capacity_def)
  have d1: "distinct (map fst (entries s1 (as @ [next_node s]) @ kvs))"
    using Cons.prems(3) kv by (simp add: s1(4))
  have l1: "4 * (length (as @ [next_node s]) + length kvs) \<le> 3 * c"
    using Cons.prems(5) by simp
  from Cons.IH[OF s1(2,3) d1 c1 l1] obtain s' as' where
    r: "insert_all s1 this kvs = Some s'" "wf_lhm s' this as'" "alloc_ok s'"
      "entries s' as' = entries s1 (as @ [next_node s]) @ kvs"
      "length as' = length (as @ [next_node s]) + length kvs" "capacity s' this = Some c"
    by blast
  have "insert_all s this (kv # kvs) = Some s'" using s1(1) r(1) kv by simp
  moreover have "entries s' as' = entries s as @ kv # kvs" using r(4) s1(4) kv by simp
  moreover have "length as' = length as + length (kv # kvs)" using r(5) by simp
  ultimately show ?case using r(2,3,6) by blast
qed

lemma thirteen_insertions:
  assumes wf: "wf_lhm s this []" and al: "alloc_ok s" and c: "capacity s this = Some 16"
    and d: "distinct (map fst kvs)" and l: "length kvs = 13"
  shows "(\<forall>j\<le>12. \<exists>s'. insert_all s this (take j kvs) = Some s' \<and>
        capacity s' this = Some 16 \<and> size_lhm s' this = Some j)"
    and "\<exists>s' as'. insert_all s this kvs = Some s' \<and> wf_lhm s' this as' \<and> alloc_ok s' \<and>
        entries s' as' = kvs \<and> capacity s' this = Some 32 \<and> size_lhm s' this = Some 13"
proof -
  have pre: "\<exists>s' as'. insert_all s this (take j kvs) = Some s' \<and> wf_lhm s' this as' \<and>
      alloc_ok s' \<and> entries s' as' = take j kvs \<and> length as' = j \<and>
      capacity s' this = Some 16" if "j \<le> 12" for j
  proof -
    have "distinct (map fst (take j kvs))" using d by (simp add: take_map[symmetric])
    then have "distinct (map fst (entries s [] @ take j kvs))" by simp
    from insert_all_no_growth[OF wf al this c] that l show ?thesis by simp
  qed
  show "\<forall>j\<le>12. \<exists>s'. insert_all s this (take j kvs) = Some s' \<and>
        capacity s' this = Some 16 \<and> size_lhm s' this = Some j"
    using pre size_wf by blast
  from pre[of 12] obtain s12 as12 where
    s12: "insert_all s this (take 12 kvs) = Some s12" "wf_lhm s12 this as12" "alloc_ok s12"
      "entries s12 as12 = take 12 kvs" "length as12 = 12" "capacity s12 this = Some 16"
    by auto
  have split: "kvs = take 12 kvs @ [kvs ! 12]"
    using l by (metis Suc_eq_numeral lessI pred_numeral_simps(3) semiring_norm(26,27)
        take_Suc_conv_app_nth take_all order_refl)
  obtain k v where kv: "kvs ! 12 = (k, v)" by (cases "kvs ! 12")
  have "distinct (map fst (take 12 kvs @ [(k, v)]))" using d split kv by metis
  then have absent: "k \<notin> fst ` set (entries s12 as12)" by (simp add: s12(4))
  obtain m where m: "maps s12 this = Some m" using s12(2) by (rule wf_lhmD)
  have cm: "table_size m = 16" using s12(6) m by (simp add: capacity_def)
  from insert_new[OF s12(2,3) absent m, of v] obtain s' where
    s': "insert_lhm s12 this (k, v) =
        Some (s', \<lparr>node = Some (next_node s12), map_ptr = Some this\<rparr>, True)"
      "wf_lhm s' this (as12 @ [next_node s12])" "alloc_ok s'"
      "entries s' (as12 @ [next_node s12]) = entries s12 as12 @ [(k, v)]"
      "\<forall>m'. maps s' this = Some m' \<longrightarrow> table_size m' =
              (if 3 * table_size m \<le> 4 * length as12 then 2 * table_size m else table_size m)"
    by blast
  obtain m' where m': "maps s' this = Some m'" using s'(2) by (rule wf_lhmD)
  have "capacity s' this = Some 32" using s'(5) m' cm s12(5) by (simp add: capacity_def)
  moreover have "insert_all s this kvs = Some s'"
    using s12(1) s'(1) kv by (subst split) (simp add: insert_all_append)
  moreover have "entries s' (as12 @ [next_node s12]) = kvs"
    using s'(4) s12(4) kv split by simp
  moreover have "size_lhm s' this = Some 13" using size_wf[OF s'(2)] s12(5) by simp
  ultimately show "\<exists>s' as'. insert_all s this kvs = Some s' \<and> wf_lhm s' this as' \<and>
      alloc_ok s' \<and> entries s' as' = kvs \<and> capacity s' this = Some 32 \<and>
      size_lhm s' this = Some 13"
    using s'(2,3) by blast
qed

lemma run_ops_erasing:
  assumes "wf_lhm s this as" and "alloc_ok s" and "capacity s this = Some c"
    and "\<forall>x\<in>set ops. erasing x"
  shows "\<exists>s'. run_ops dflt s this ops = Some s' \<and> capacity s' this = Some c \<and>
      iterate s' this = Some (Inr (spec_ops dflt (entries s as) ops))"
  using assms
proof (induction ops arbitrary: s as)
  case Nil
  then show ?case using iterate_wf by (auto simp: spec_ops_def)
next
  case (Cons x ops)
  from run_op_correct[OF Cons.prems(1-3), of dflt x] Cons.prems(4) obtain s1 as1 where
    s1: "run_op dflt s this x = Some s1" "wf_lhm s1 this as1" "alloc_ok s1"
      "entries s1 as1 = spec_op dflt (entries s as) x" "capacity s1 this = Some c"
    by auto
  from Cons.IH[OF s1(2,3,5)] Cons.prems(4) obtain s' where
    "run_ops dflt s1 this ops = Some s'" "capacity s' this = Some c"
    "iterate s' this = Some (Inr (spec_ops dflt (entries s1 as1) ops))"
    by auto
  then show ?case using s1(1,4) by (simp add: spec_ops_def)
qed

lemma load_real:
  fixes n c :: nat
  assumes "4 * n \<le> 3 * c"
  shows "real n \<le> 0.75 * real c"
proof -
  have "real (4 * n) \<le> real (3 * c)" using assms by (simp only: of_nat_le_iff)
  then show ?thesis by simp
qed

text \<open>Claim C4, as the code has it. On a well-formed container of capacity \<open>c\<close>:
  after the insertion of an absent key the size is at most three quarters of the
  capacity, which is \<open>c\<close> or \<open>2 * c\<close>; after any sequence of insertions, erasures, clears
  and accesses by \<^verbatim>\<open>operator[]\<close> the capacity is \<open>c\<close> doubled some number of times, and it
  is still \<open>c\<close> when the sequence only erases and clears; copy assignment replaces the
  capacity by the capacity of its source. Inserting 13 distinct keys into an empty
  container of capacity 16 leaves the capacity at 16 during the first twelve
  insertions and makes it 32 with the thirteenth, after which all 13 keys are found.\<close>

theorem capacity_doubles_and_load_is_bounded:
  assumes "wf_lhm s this as" and "alloc_ok s" and "capacity s this = Some c"
  shows "(k \<notin> fst ` set (entries s as) \<longrightarrow>
      (\<exists>s' it c'. insert_lhm s this (k, v) = Some (s', it, True) \<and>
         size_lhm s' this = Some (Suc (length as)) \<and> capacity s' this = Some c' \<and>
         real (Suc (length as)) \<le> 0.75 * real c' \<and> (c' = c \<or> c' = 2 * c))) \<and>
    (\<exists>s' j. run_ops dflt s this ops = Some s' \<and> capacity s' this = Some (2 ^ j * c)) \<and>
    ((\<forall>x\<in>set ops. erasing x) \<longrightarrow>
      (\<exists>s'. run_ops dflt s this ops = Some s' \<and> capacity s' this = Some c)) \<and>
    (wf_lhm s other bs \<and> other \<noteq> this \<and> set as \<inter> set bs = {} \<longrightarrow>
      (\<exists>s'. operator_assign s this other = Some s' \<and> capacity s' this = capacity s other)) \<and>
    (as = [] \<and> c = 16 \<and> distinct (map fst kvs) \<and> length kvs = 13 \<longrightarrow>
      (\<forall>j\<le>12. \<exists>s'. insert_all s this (take j kvs) = Some s' \<and>
         capacity s' this = Some 16 \<and> size_lhm s' this = Some j) \<and>
      (\<exists>s'. insert_all s this kvs = Some s' \<and> capacity s' this = Some 32 \<and>
         size_lhm s' this = Some 13 \<and> iterate s' this = Some (Inr kvs) \<and>
         (\<forall>kv\<in>set kvs. \<exists>it. find_lhm s' this (fst kv) = Some it \<and>
            iterator_deref s' it = Some (Inr kv))))"
proof (intro conjI impI)
  assume absent: "k \<notin> fst ` set (entries s as)"
  obtain m where m: "maps s this = Some m" using assms(1) by (rule wf_lhmD)
  have cm: "table_size m = c" using assms(3) m by (simp add: capacity_def)
  from insert_new[OF assms(1,2) absent m, of v] obtain s' where
    s': "insert_lhm s this (k, v) =
        Some (s', \<lparr>node = Some (next_node s), map_ptr = Some this\<rparr>, True)"
      "wf_lhm s' this (as @ [next_node s])"
      "\<forall>m'. maps s' this = Some m' \<longrightarrow> table_size m' =
              (if 3 * table_size m \<le> 4 * length as then 2 * table_size m else table_size m)"
    by blast
  obtain m' where m': "maps s' this = Some m'" using s'(2) by (rule wf_lhmD)
  have "4 * length (as @ [next_node s]) \<le> 3 * table_size m'"
    using s'(2) m' by (rule wf_lhm_load)
  then have "real (Suc (length as)) \<le> 0.75 * real (table_size m')"
    using load_real[of "Suc (length as)" "table_size m'"] by simp
  moreover have "table_size m' = c \<or> table_size m' = 2 * c" using s'(3) m' cm by auto
  moreover have "size_lhm s' this = Some (Suc (length as))" using size_wf[OF s'(2)] by simp
  ultimately show "\<exists>s' it c'. insert_lhm s this (k, v) = Some (s', it, True) \<and>
         size_lhm s' this = Some (Suc (length as)) \<and> capacity s' this = Some c' \<and>
         real (Suc (length as)) \<le> 0.75 * real c' \<and> (c' = c \<or> c' = 2 * c)"
    using s'(1) capacity_table_size[OF m'] by blast
next
  from run_ops_correct[OF assms, of dflt ops]
  show "\<exists>s' j. run_ops dflt s this ops = Some s' \<and> capacity s' this = Some (2 ^ j * c)"
    by blast
next
  assume "\<forall>x\<in>set ops. erasing x"
  from run_ops_erasing[OF assms this, of dflt]
  show "\<exists>s'. run_ops dflt s this ops = Some s' \<and> capacity s' this = Some c" by blast
next
  assume a: "wf_lhm s other bs \<and> other \<noteq> this \<and> set as \<inter> set bs = {}"
  then obtain mo where mo: "maps s other = Some mo" by (auto elim: wf_lhmD)
  from operator_assign_correct[OF assms(1) _ assms(2) _ _ mo, of bs] a obtain s' as' where
    r: "operator_assign s this other = Some s'" "wf_lhm s' this as'"
      "\<forall>m'. maps s' this = Some m' \<longrightarrow> table_size m' = table_size mo"
    by auto
  obtain m' where m': "maps s' this = Some m'" using r(2) by (rule wf_lhmD)
  show "\<exists>s'. operator_assign s this other = Some s' \<and> capacity s' this = capacity s other"
    using r(1,3) m' mo by (auto simp: capacity_def)
next
  assume a: "as = [] \<and> c = 16 \<and> distinct (map fst kvs) \<and> length kvs = 13"
  then have p: "wf_lhm s this []" "capacity s this = Some 16" "distinct (map fst kvs)"
    "length kvs = 13"
    using assms by auto
  show "\<forall>j\<le>12. \<exists>s'. insert_all s this (take j kvs) = Some s' \<and>
         capacity s' this = Some 16 \<and> size_lhm s' this = Some j"
    using p(1) assms(2) p(2,3,4) by (rule thirteen_insertions(1))
  from thirteen_insertions(2)[OF p(1) assms(2) p(2,3,4)] obtain s' as' where
    r: "insert_all s this kvs = Some s'" "wf_lhm s' this as'" "entries s' as' = kvs"
      "capacity s' this = Some 32" "size_lhm s' this = Some 13"
    by blast
  have "\<exists>it. find_lhm s' this (fst kv) = Some it \<and> iterator_deref s' it = Some (Inr kv)"
    if "kv \<in> set kvs" for kv
    using lookup_wf(1)[OF r(2), of "fst kv" "snd kv"] that r(3) by auto
  then show "\<exists>s'. insert_all s this kvs = Some s' \<and> capacity s' this = Some 32 \<and>
         size_lhm s' this = Some 13 \<and> iterate s' this = Some (Inr kvs) \<and>
         (\<forall>kv\<in>set kvs. \<exists>it. find_lhm s' this (fst kv) = Some it \<and>
            iterator_deref s' it = Some (Inr kv))"
    using r iterate_wf[OF r(2)] by auto
qed

lemma thirteen_store_wf:
  "\<exists>as. wf_lhm thirteen_store 0 as \<and> entries thirteen_store as = thirteen_pairs" 
  "alloc_ok thirteen_store" "capacity thirteen_store 0 = Some 32"
  "insert_all (the (linked_hashmap_ctor (\<lambda>k. k) (=) empty_store 0)) 0 thirteen_pairs =
     Some thirteen_store"
proof -
  from fresh_container obtain s1 where
    s1: "linked_hashmap_ctor (\<lambda>k. k) (=) empty_store 0 = Some s1" "wf_lhm s1 0 []" "alloc_ok s1"
      "capacity s1 0 = Some 16"
    by blast
  have d: "distinct (map fst thirteen_pairs)" "length thirteen_pairs = 13"
    by (simp_all add: thirteen_pairs_def)
  from thirteen_insertions(2)[OF s1(2,3,4) d] obtain s' as' where
    r: "insert_all s1 0 thirteen_pairs = Some s'" "wf_lhm s' 0 as'" "alloc_ok s'"
      "entries s' as' = thirteen_pairs" "capacity s' 0 = Some 32"
    by blast
  have eq: "thirteen_store = s'" using s1(1) r(1) by (simp add: thirteen_store_def)
  show "\<exists>as. wf_lhm thirteen_store 0 as \<and> entries thirteen_store as = thirteen_pairs"
    "alloc_ok thirteen_store" "capacity thirteen_store 0 = Some 32"
    "insert_all (the (linked_hashmap_ctor (\<lambda>k. k) (=) empty_store 0)) 0 thirteen_pairs =
     Some thirteen_store"
    using r s1(1) unfolding eq by auto
qed

lemma two_containers_store_wf:
  "\<exists>as. wf_lhm two_containers_store 0 as \<and> entries two_containers_store as = thirteen_pairs"
  "wf_lhm two_containers_store 1 []" "alloc_ok two_containers_store"
  "capacity two_containers_store 0 = Some 32" "capacity two_containers_store 1 = Some 16"
proof -
  from thirteen_store_wf(1) obtain as where
    as: "wf_lhm thirteen_store 0 as" "entries thirteen_store as = thirteen_pairs" by blast
  obtain s2 where s2: "linked_hashmap_ctor (\<lambda>k. k) (=) thirteen_store 1 = Some s2"
    "wf_lhm s2 1 []" "nodes s2 = nodes thirteen_store" "next_node s2 = next_node thirteen_store"
    "\<forall>t. t \<noteq> 1 \<longrightarrow> maps s2 t = maps thirteen_store t"
    "\<forall>m. maps s2 1 = Some m \<longrightarrow> table_size m = 16 \<and> hash_func m = (\<lambda>k. k)"
    using linked_hashmap_ctor_wf[of "\<lambda>k. k" thirteen_store 1] by blast
  have eq: "two_containers_store = s2" using s2(1) by (simp add: two_containers_store_def)
  have "wf_lhm s2 0 as" using s2(3,5) by (intro wf_lhm_frame[OF as(1)]) simp_all
  moreover have "entries s2 as = thirteen_pairs"
    using as(2) s2(3) by (simp add: entries_def fld_def)
  moreover have "alloc_ok s2" using thirteen_store_wf(2) s2(3,4) by (simp add: alloc_ok_def)
  moreover have "capacity s2 0 = Some 32" using thirteen_store_wf(3) s2(5) by (simp add: capacity_def)
  moreover obtain m where "maps s2 1 = Some m" using s2(2) by (rule wf_lhmD)
  then have "capacity s2 1 = Some 16" using s2(6) by (simp add: capacity_def)
  ultimately show
    "\<exists>as. wf_lhm two_containers_store 0 as \<and> entries two_containers_store as = thirteen_pairs"
    "wf_lhm two_containers_store 1 []" "alloc_ok two_containers_store"
    "capacity two_containers_store 0 = Some 32" "capacity two_containers_store 1 = Some 16"
    using s2(2) unfolding eq by auto
qed

theorem capacity_doubles_and_load_is_bounded_witness:
  "(\<exists>s1. linked_hashmap_ctor (\<lambda>k. k) (=) empty_store 0 = Some s1 \<and>
      (\<forall>j\<le>12. \<exists>s'. insert_all s1 0 (take j thirteen_pairs) = Some s' \<and>
         capacity s' 0 = Some 16 \<and> size_lhm s' 0 = Some j) \<and>
      insert_all s1 0 thirteen_pairs = Some thirteen_store) \<and>
   capacity thirteen_store 0 = Some 32 \<and> size_lhm thirteen_store 0 = Some 13 \<and>
   (\<exists>s' it c'. insert_lhm thirteen_store 0 (40, 1) = Some (s', it, True) \<and>
      size_lhm s' 0 = Some 14 \<and> capacity s' 0 = Some c' \<and> real 14 \<le> 0.75 * real c') \<and>
   (\<exists>s'. run_ops 0 thirteen_store 0 [Erase 3, Clear] = Some s' \<and> capacity s' 0 = Some 32) \<and>
   (\<exists>s'. operator_assign two_containers_store 0 1 = Some s' \<and> capacity s' 0 = Some 16)"
proof -
  from fresh_container obtain s1 where
    s1: "linked_hashmap_ctor (\<lambda>k. k) (=) empty_store 0 = Some s1" "wf_lhm s1 0 []" "alloc_ok s1"
      "capacity s1 0 = Some 16"
    by blast
  have d: "distinct (map fst thirteen_pairs)" "length thirteen_pairs = 13"
    by (simp_all add: thirteen_pairs_def)
  from thirteen_store_wf(1) obtain as where
    as: "wf_lhm thirteen_store 0 as" "entries thirteen_store as = thirteen_pairs" by blast
  have len: "length as = 13"
    using arg_cong[OF as(2), of length] by (simp add: entries_def thirteen_pairs_def)
  have ab: "40 \<notin> fst ` set (entries thirteen_store as)"
    by (simp add: as(2) thirteen_pairs_def)
  have er: "\<forall>x\<in>set [Erase 3, Clear :: (nat, nat) operation]. erasing x" by simp
  from two_containers_store_wf(1) obtain as2 where
    as2: "wf_lhm two_containers_store 0 as2" by blast
  have t1: "insert_all s1 0 thirteen_pairs = Some thirteen_store"
    using thirteen_store_wf(4) s1(1) by simp
  note A = capacity_doubles_and_load_is_bounded[OF s1(2,3,4),
      of 0 0 0 "[]" 0 "[]" thirteen_pairs]
  note B = capacity_doubles_and_load_is_bounded[OF as(1) thirteen_store_wf(2,3),
      of 40 1 0 "[Erase 3, Clear]" 0 "[]" "[]"]
  note C = capacity_doubles_and_load_is_bounded[OF as2 two_containers_store_wf(3,4),
      of 0 0 0 "[]" 1 "[]" "[]"]
  have "\<forall>j\<le>12. \<exists>s'. insert_all s1 0 (take j thirteen_pairs) = Some s' \<and>
         capacity s' 0 = Some 16 \<and> size_lhm s' 0 = Some j"
    using A d by blast
  moreover have "\<exists>s' it c'. insert_lhm thirteen_store 0 (40, 1) = Some (s', it, True) \<and>
      size_lhm s' 0 = Some 14 \<and> capacity s' 0 = Some c' \<and> real 14 \<le> 0.75 * real c'"
    using B ab len by auto
  moreover have "\<exists>s'. run_ops 0 thirteen_store 0 [Erase 3, Clear] = Some s' \<and>
      capacity s' 0 = Some 32"
    using B er by blast
  moreover have "\<exists>s'. operator_assign two_containers_store 0 1 = Some s' \<and>
      capacity s' 0 = Some 16"
    using C two_containers_store_wf(2,5) by auto
  ultimately show ?thesis
    using s1(1) t1 thirteen_store_wf(3) size_wf[OF as(1)] len by auto
qed

text \<open>Claim C4 as stated fails for copy assignment: it can shrink the capacity. The
  container at address 0 has capacity 32; assigning the fresh container at address 1 to
  it leaves it with capacity 16.\<close>

theorem assignment_shrinks_capacity_counterexample:
  "capacity two_containers_store 0 = Some 32 \<and>
   capacity (the (operator_assign two_containers_store 0 1)) 0 = Some 16"
proof -
  from two_containers_store_wf(1) obtain as2 where
    as2: "wf_lhm two_containers_store 0 as2" by blast
  obtain mo where mo: "maps two_containers_store 1 = Some mo"
    using two_containers_store_wf(2) by (rule wf_lhmD)
  from operator_assign_correct[OF as2 two_containers_store_wf(2,3) _ _ mo] obtain s' as' where
    r: "operator_assign two_containers_store 0 1 = Some s'" "wf_lhm s' 0 as'"
      "\<forall>m'. maps s' 0 = Some m' \<longrightarrow> table_size m' = table_size mo"
    by auto
  obtain m' where m': "maps s' 0 = Some m'" using r(2) by (rule wf_lhmD)
  have "capacity s' 0 = Some 16"
    using r(3) m' mo two_containers_store_wf(5) by (simp add: capacity_def)
  then show ?thesis using r(1) two_containers_store_wf(4) by simp
qed

section \<open>Copies are independent\<close>

lemma independent_ops:
  assumes wfa: "wf_lhm s a as" and wfb: "wf_lhm s b bs" and ne: "a \<noteq> b"
    and dj: "set as \<inter> set bs = {}" and al: "alloc_ok s"
  shows "\<exists>s'. run_ops dflt s a ops = Some s' \<and> iterate s' b = iterate s b"
proof -
  from capacity_wf[OF wfa] obtain c where c: "capacity s a = Some c" by blast
  from run_ops_correct[OF wfa al c, of dflt ops] obtain s' as' where
    r: "run_ops dflt s a ops = Some s'" "frame_ok a s as s' as'"
    by blast
  have same: "nodes s' x = nodes s x" if "x \<in> set bs" for x
  proof -
    have "x \<notin> set as" using that dj by auto
    moreover have "x < next_node s" using wfb al that by (rule wf_lhm_fresh)
    ultimately show ?thesis using r(2) by (simp add: frame_ok_def)
  qed
  have "maps s' b = maps s b" using r(2) ne by (simp add: frame_ok_def)
  with wfb have wfb': "wf_lhm s' b bs" using same by (rule wf_lhm_frame)
  have "entries s' bs = entries s bs" using same by (rule entries_frame)
  then have "iterate s' b = iterate s b"
    using iterate_wf[OF wfb] iterate_wf[OF wfb'] by simp
  then show ?thesis using r(1) by blast
qed

lemma copied_intro:
  assumes "wf_lhm s other bs" and "maps s other = Some mo"
    and "wf_lhm s' this as'" and "wf_lhm s' other bs" and "alloc_ok s'"
    and "set as' \<inter> set bs = {}" and "this \<noteq> other"
    and "entries s' as' = entries s bs" and "entries s' bs = entries s bs"
    and "\<forall>m'. maps s' this = Some m' \<longrightarrow> table_size m' = table_size mo"
    and "maps s' other = maps s other"
  shows "copied dflt s other s' this"
proof -
  obtain m' where m': "maps s' this = Some m'" using assms(3) by (rule wf_lhmD)
  have "iterate s' this = iterate s other"
    using iterate_wf[OF assms(3)] iterate_wf[OF assms(1)] assms(8) by simp
  moreover have "iterate s' other = iterate s other"
    using iterate_wf[OF assms(4)] iterate_wf[OF assms(1)] assms(9) by simp
  moreover have "capacity s' this = capacity s other"
    using assms(10) m' assms(2) by (simp add: capacity_def)
  moreover have "capacity s' other = capacity s other"
    using assms(11) by (simp add: capacity_def)
  moreover have "\<exists>s''. run_ops dflt s' this ops = Some s'' \<and> iterate s'' other = iterate s' other"
    for ops
    using assms(3,4,7,6,5) by (rule independent_ops)
  moreover have "\<exists>s''. run_ops dflt s' other ops = Some s'' \<and> iterate s'' this = iterate s' this"
    for ops
  proof (rule independent_ops[OF assms(4,3) _ _ assms(5)])
    show "other \<noteq> this" using assms(7) by simp
    show "set bs \<inter> set as' = {}" using assms(6) by auto
  qed
  ultimately show ?thesis unfolding copied_def by blast
qed

text \<open>Claim C9. Copy construction and copy assignment from a well-formed container
  return normally and make the destination an independent copy of the source: it
  iterates in the source's order, has the source's capacity, the source is unchanged,
  and afterwards no sequence of operations on one of the two changes the iteration of
  the other. Self-assignment leaves the store as it is.\<close>

theorem copy_is_deep_and_keeps_order:
  assumes "wf_lhm s other bs" and "alloc_ok s" and "this \<noteq> other"
  shows "(\<exists>s'. linked_hashmap_copy_ctor Hash Equal s this other = Some s' \<and>
        copied dflt s other s' this) \<and>
    (wf_lhm s this as \<and> set as \<inter> set bs = {} \<longrightarrow>
       (\<exists>s'. operator_assign s this other = Some s' \<and> copied dflt s other s' this)) \<and>
    operator_assign s other other = Some s"
proof (intro conjI impI)
  obtain mo where mo: "maps s other = Some mo" using assms(1) by (rule wf_lhmD)
  from copy_ctor_correct[OF assms mo, of Hash Equal] obtain s' as' where
    r: "linked_hashmap_copy_ctor Hash Equal s this other = Some s'"
      "wf_lhm s' this as'" "wf_lhm s' other bs" "alloc_ok s'" "set as' \<inter> set bs = {}"
      "entries s' as' = entries s bs" "entries s' bs = entries s bs"
      "\<forall>m'. maps s' this = Some m' \<longrightarrow> table_size m' = table_size mo"
      "\<forall>t. t \<noteq> this \<longrightarrow> maps s' t = maps s t"
    by blast
  have "maps s' other = maps s other" using r(9) assms(3) by simp
  with assms(1) mo r(2-5) assms(3) r(6-8) have "copied dflt s other s' this"
    by (rule copied_intro)
  then show "\<exists>s'. linked_hashmap_copy_ctor Hash Equal s this other = Some s' \<and>
        copied dflt s other s' this"
    using r(1) by blast
  show "\<exists>s'. operator_assign s this other = Some s' \<and> copied dflt s other s' this"
    if a: "wf_lhm s this as \<and> set as \<inter> set bs = {}"
  proof -
    from operator_assign_correct[OF _ assms(1,2,3) _ mo, of as] a obtain s' as' where
      q: "operator_assign s this other = Some s'"
        "wf_lhm s' this as'" "wf_lhm s' other bs" "alloc_ok s'" "set as' \<inter> set bs = {}"
        "entries s' as' = entries s bs" "entries s' bs = entries s bs"
        "\<forall>m'. maps s' this = Some m' \<longrightarrow> table_size m' = table_size mo"
        "\<forall>t. t \<noteq> this \<longrightarrow> maps s' t = maps s t"
      by auto
    have "maps s' other = maps s other" using q(9) assms(3) by simp
    with assms(1) mo q(2-5) assms(3) q(6-8) have "copied dflt s other s' this"
      by (rule copied_intro)
    then show ?thesis using q(1) by blast
  qed
  show "operator_assign s other other = Some s" by (simp add: operator_assign_def)
qed

theorem copy_is_deep_and_keeps_order_witness:
  "(\<exists>s'. linked_hashmap_copy_ctor (\<lambda>k. 0) (\<lambda>a b. False) two_containers_store 2 0 = Some s' \<and>
      iterate s' 2 = Some (Inr thirteen_pairs) \<and> iterate s' 0 = Some (Inr thirteen_pairs) \<and>
      capacity s' 2 = Some 32 \<and>
      (\<exists>s''. run_ops 0 s' 2 [Erase 3, Insert 99 1, Clear] = Some s'' \<and>
         iterate s'' 0 = Some (Inr thirteen_pairs)) \<and>
      (\<exists>s''. run_ops 0 s' 0 [Erase 3, Insert 99 1, Clear] = Some s'' \<and>
         iterate s'' 2 = Some (Inr thirteen_pairs))) \<and>
   (\<exists>s'. operator_assign two_containers_store 1 0 = Some s' \<and>
      iterate s' 1 = Some (Inr thirteen_pairs) \<and> capacity s' 1 = Some 32) \<and>
   operator_assign two_containers_store 0 0 = Some two_containers_store"
proof -
  from two_containers_store_wf(1) obtain as where
    as: "wf_lhm two_containers_store 0 as" "entries two_containers_store as = thirteen_pairs"
    by blast
  have it: "iterate two_containers_store 0 = Some (Inr thirteen_pairs)"
    using iterate_wf[OF as(1)] as(2) by simp
  have d1: "wf_lhm two_containers_store 1 [] \<and> set [] \<inter> set as = {}"
    using two_containers_store_wf(2) by simp
  note A = copy_is_deep_and_keeps_order[OF as(1) two_containers_store_wf(3),
      of 2 "\<lambda>k. 0" "\<lambda>a b. False" 0 "[]"]
  note B = copy_is_deep_and_keeps_order[OF as(1) two_containers_store_wf(3),
      of 1 "\<lambda>k. 0" "\<lambda>a b. False" 0 "[]"]
  from A obtain s' where
    s': "linked_hashmap_copy_ctor (\<lambda>k. 0) (\<lambda>a b. False) two_containers_store 2 0 = Some s'"
      "copied 0 two_containers_store 0 s' 2"
    by auto
  have "\<exists>s''. run_ops 0 s' 2 [Erase 3, Insert 99 1, Clear] = Some s'' \<and>
         iterate s'' 0 = Some (Inr thirteen_pairs)"
    using s'(2) it unfolding copied_def by metis
  moreover have "\<exists>s''. run_ops 0 s' 0 [Erase 3, Insert 99 1, Clear] = Some s'' \<and>
         iterate s'' 2 = Some (Inr thirteen_pairs)"
    using s'(2) it unfolding copied_def by metis
  moreover have "iterate s' 2 = Some (Inr thirteen_pairs)" "iterate s' 0 = Some (Inr thirteen_pairs)"
    "capacity s' 2 = Some 32"
    using s'(2) it two_containers_store_wf(4) by (simp_all add: copied_def)
  moreover from B d1 obtain s2 where
    "operator_assign two_containers_store 1 0 = Some s2" "copied 0 two_containers_store 0 s2 1"
    by auto
  then have "\<exists>s'. operator_assign two_containers_store 1 0 = Some s' \<and>
      iterate s' 1 = Some (Inr thirteen_pairs) \<and> capacity s' 1 = Some 32"
    using it two_containers_store_wf(4) by (auto simp: copied_def)
  moreover have "operator_assign two_containers_store 0 0 = Some two_containers_store"
    using A by simp
  ultimately show ?thesis using s'(1) by blast
qed

end
